theory Spec2Isabelle
  imports Main "HOL-Library.AList" "HOL-Library.Char_ord" "HOL-Library.List_Lexorder"
begin

section \<open>JavaScript values\<close>

text \<open>
  Documents are JavaScript objects. A value is \<open>null\<close>, a boolean, a number, a string,
  a MongoDB ObjectId (given by its hexadecimal rendering), an array or an object; an object
  is the list of its own properties in insertion order. A property that is absent
  (\<open>undefined\<close>) is a missing key, so reading a property gives an \<open>option\<close>.
  Numbers are taken to be integers.
\<close>

datatype jsval = JNull | JBool bool | JNum int | JStr string | JOid string
  | JArr "jsval list" | JObj "(string \<times> jsval) list"

type_synonym fields = "(string \<times> jsval) list"

text \<open>The truthiness of a value, as \<open>if (v)\<close> and \<open>v || w\<close> test it.\<close>

fun truthy :: "jsval \<Rightarrow> bool" where
  "truthy JNull = False"
| "truthy (JBool b) = b"
| "truthy (JNum n) = (n \<noteq> 0)"
| "truthy (JStr s) = (s \<noteq> [])"
| "truthy (JOid h) = True"
| "truthy (JArr xs) = True"
| "truthy (JObj fs) = True"

text \<open>\<open>a || b\<close> where \<open>a\<close> may be undefined.\<close>

definition js_or :: "jsval option \<Rightarrow> jsval \<Rightarrow> jsval" where
  "js_or a b = (case a of None \<Rightarrow> b | Some v \<Rightarrow> if truthy v then v else b)"

fun string_of_nat :: "nat \<Rightarrow> string" where
  "string_of_nat n =
     (if n < 10 then [''0123456789'' ! n]
      else string_of_nat (n div 10) @ [''0123456789'' ! (n mod 10)])"

definition string_of_int :: "int \<Rightarrow> string" where
  "string_of_int i = (if i < 0 then CHR ''-'' # string_of_nat (nat (- i)) else string_of_nat (nat i))"

fun join :: "string list \<Rightarrow> string" where
  "join [] = []"
| "join [s] = s"
| "join (s # t # ss) = s @ CHR '','' # join (t # ss)"

text \<open>\<open>v.toString()\<close>; an array joins its elements with commas, \<open>null\<close> elements giving
  the empty string.\<close>

fun toString :: "jsval \<Rightarrow> string" where
  "toString JNull = ''null''"
| "toString (JBool b) = (if b then ''true'' else ''false'')"
| "toString (JNum n) = string_of_int n"
| "toString (JStr s) = s"
| "toString (JOid h) = h"
| "toString (JArr xs) = join (map (\<lambda>x. if x = JNull then [] else toString x) xs)"
| "toString (JObj fs) = ''[object Object]''"

text \<open>The object spread \<open>{ ...v }\<close> of a truthy value: the own enumerable properties.\<close>

fun spread :: "jsval \<Rightarrow> fields" where
  "spread (JObj fs) = fs"
| "spread (JArr xs) = zip (map string_of_nat [0..<length xs]) xs"
| "spread (JStr s) = zip (map string_of_nat [0..<length s]) (map (\<lambda>c. JStr [c]) s)"
| "spread v = []"

text \<open>\<open>JSON.stringify\<close> on the way to the cluster: an ObjectId is sent as its string,
  and a property whose value is \<open>undefined\<close> is left out.\<close>

fun to_json :: "jsval \<Rightarrow> jsval" where
  "to_json (JOid h) = JStr h"
| "to_json (JArr xs) = JArr (map to_json xs)"
| "to_json (JObj fs) = JObj (map (\<lambda>(k, v). (k, to_json v)) fs)"
| "to_json v = v"

fun stringify :: "(string \<times> jsval option) list \<Rightarrow> fields" where
  "stringify [] = []"
| "stringify ((k, None) # kvs) = stringify kvs"
| "stringify ((k, Some v) # kvs) = (k, to_json v) # stringify kvs"

text \<open>An object has each key once, at every depth.\<close>

fun distinct_keys :: "jsval \<Rightarrow> bool" where
  "distinct_keys (JArr xs) = list_all distinct_keys xs"
| "distinct_keys (JObj fs) = (distinct (map fst fs) \<and> list_all (\<lambda>kv. distinct_keys (snd kv)) fs)"
| "distinct_keys v = True"

section \<open>The source collection\<close>

text \<open>
  A document of the MongoDB collection: its \<open>_id\<close>, an ObjectId given by the string that
  \<open>_id.toString()\<close> returns (and from which \<open>new ObjectId\<close> rebuilds it), and its other
  properties. The collection is read as a list of documents; reading it does not fail.
\<close>

record mongo_doc =
  oid :: string
  props :: fields

definition field :: "mongo_doc \<Rightarrow> string \<Rightarrow> jsval option" where
  "field d k = map_of (props d) k"

definition countDocuments :: "mongo_doc list \<Rightarrow> nat" where
  "countDocuments coll = length coll"

text \<open>\<open>find({ _id: { $in: ids } }).toArray()\<close>\<close>

definition find_in :: "mongo_doc list \<Rightarrow> string list \<Rightarrow> mongo_doc list" where
  "find_in coll ids = filter (\<lambda>d. oid d \<in> set ids) coll"

section \<open>The search cluster\<close>

text \<open>
  The index maps a document identifier to its stored source. Every call of the client is
  answered by the next entry of \<open>script\<close>: the call throws, or the cluster responds; for
  a bulk call the response names the items it rejects, by position, with the error type.
  When the script is used up, every call is answered and no item is rejected. \<open>requests\<close>
  records the calls made, \<open>sleeps\<close> the delays (in ms) that were awaited. The index has one
  shard, as \<open>createIndexIfNotExists\<close> creates it, so the \<open>routing\<close> of a request does not
  change which document an identifier names; document versions are not kept.
\<close>

datatype client_error = ResponseError nat | ConnectionError

datatype reply = Throws client_error | Responds "string option list"

record update_action =
  a_index :: string
  a_id :: string
  routing :: jsval
  retry_on_conflict :: nat

record update_payload =
  doc :: fields
  doc_as_upsert :: bool

datatype request =
    BulkReq "(update_action \<times> update_payload) list"
  | DeleteReq string
  | StatsReq
  | SearchReq nat "string option"
  | CountReq
  | ExistsReq string

record opensearch =
  indexName :: string
  index :: "(string \<times> fields) list"
  script :: "reply list"
  requests :: "request list"
  sleeps :: "nat list"

text \<open>The partial update of a stored source by the \<open>doc\<close> of an update request: a new key
  is added, two objects are merged key by key, anything else is replaced.\<close>

function merge_obj :: "fields \<Rightarrow> fields \<Rightarrow> fields" where
  "merge_obj src [] = src"
| "merge_obj src ((k, v) # chg) =
     merge_obj (AList.update k
        (case (map_of src k, v) of
           (Some (JObj old), JObj new) \<Rightarrow> JObj (merge_obj old new)
         | _ \<Rightarrow> v) src) chg"
  by pat_completeness auto
termination
  by (relation "measure (\<lambda>(s, c). size_list (size_prod (\<lambda>_. 0) size) c)") auto

text \<open>One item of a bulk request: the update of one document. Without \<open>doc_as_upsert\<close>
  an absent document is an error of the item.\<close>

definition apply_update :: "update_action \<times> update_payload \<Rightarrow> (string \<times> fields) list
    \<Rightarrow> string option \<times> (string \<times> fields) list" where
  "apply_update item idx =
     (case map_of idx (a_id (fst item)) of
        Some old \<Rightarrow> (None, AList.update (a_id (fst item)) (merge_obj old (doc (snd item))) idx)
      | None \<Rightarrow>
          if doc_as_upsert (snd item) then (None, idx @ [(a_id (fst item), doc (snd item))])
          else (Some ''document_missing_exception'', idx))"

text \<open>The items of a bulk request are applied in the order of the request; \<open>rej\<close> names
  the rejected ones. The result lists, per item, the error type if there is one.\<close>

fun apply_items :: "(update_action \<times> update_payload) list \<Rightarrow> string option list
    \<Rightarrow> (string \<times> fields) list \<Rightarrow> string option list \<times> (string \<times> fields) list" where
  "apply_items [] rej idx = ([], idx)"
| "apply_items (item # items) rej idx =
     (case rej of
        Some ty # rej' \<Rightarrow>
          (let (res, idx') = apply_items items rej' idx in (Some ty # res, idx'))
      | _ \<Rightarrow>
          (let (r, idx1) = apply_update item idx;
               (res, idx') = apply_items items (tl rej) idx1
           in (r # res, idx')))"

definition client_bulk :: "(update_action \<times> update_payload) list \<Rightarrow> opensearch
    \<Rightarrow> (client_error + string option list) \<times> opensearch" where
  "client_bulk body os =
     (let os1 = os\<lparr>requests := requests os @ [BulkReq body], script := tl (script os)\<rparr> in
      case script os of
        Throws e # _ \<Rightarrow> (Inl e, os1)
      | Responds rej # _ \<Rightarrow>
          (let (res, idx') = apply_items body rej (index os) in (Inr res, os1\<lparr>index := idx'\<rparr>))
      | [] \<Rightarrow>
          (let (res, idx') = apply_items body [] (index os) in (Inr res, os1\<lparr>index := idx'\<rparr>)))"

text \<open>Deleting an identifier the index does not hold is answered with status 404, which
  the client throws as a response error.\<close>

definition client_delete :: "string \<Rightarrow> opensearch \<Rightarrow> (client_error + unit) \<times> opensearch" where
  "client_delete i os =
     (let os1 = os\<lparr>requests := requests os @ [DeleteReq i], script := tl (script os)\<rparr> in
      case script os of
        Throws e # _ \<Rightarrow> (Inl e, os1)
      | _ \<Rightarrow>
          if i \<in> fst ` set (index os) then (Inr (), os1\<lparr>index := AList.delete i (index os)\<rparr>)
          else (Inl (ResponseError 404), os1))"

definition client_stats :: "opensearch \<Rightarrow> (client_error + nat) \<times> opensearch" where
  "client_stats os =
     (let os1 = os\<lparr>requests := requests os @ [StatsReq], script := tl (script os)\<rparr> in
      case script os of
        Throws e # _ \<Rightarrow> (Inl e, os1)
      | _ \<Rightarrow> (Inr (length (index os)), os1))"

definition client_count :: "opensearch \<Rightarrow> (client_error + nat) \<times> opensearch" where
  "client_count os =
     (let os1 = os\<lparr>requests := requests os @ [CountReq], script := tl (script os)\<rparr> in
      case script os of
        Throws e # _ \<Rightarrow> (Inl e, os1)
      | _ \<Rightarrow> (Inr (length (index os)), os1))"

definition client_exists :: "string \<Rightarrow> opensearch \<Rightarrow> (client_error + bool) \<times> opensearch" where
  "client_exists i os =
     (let os1 = os\<lparr>requests := requests os @ [ExistsReq i], script := tl (script os)\<rparr> in
      case script os of
        Throws e # _ \<Rightarrow> (Inl e, os1)
      | _ \<Rightarrow> (Inr (i \<in> fst ` set (index os)), os1))"

text \<open>A search for identifiers only, sorted by \<open>_id\<close>, of at most \<open>n\<close> hits after the
  cursor \<open>after\<close>.\<close>

definition client_search :: "nat \<Rightarrow> string option \<Rightarrow> opensearch
    \<Rightarrow> (client_error + string list) \<times> opensearch" where
  "client_search n after os =
     (let os1 = os\<lparr>requests := requests os @ [SearchReq n after], script := tl (script os)\<rparr> in
      case script os of
        Throws e # _ \<Rightarrow> (Inl e, os1)
      | _ \<Rightarrow>
          (Inr (take n (filter (\<lambda>i. case after of None \<Rightarrow> True | Some a \<Rightarrow> a < i)
                          (sort (map fst (index os))))), os1))"

section \<open>OpenSearchService\<close>

text \<open>The properties that \<open>bulkIndex\<close> copies from the document as they are.\<close>

definition copied_fields :: "string list" where
  "copied_fields =
     [''ad_archive_id'', ''library_id'', ''page_id'', ''page_name'', ''advertiser_name'',
      ''status'', ''is_active'', ''started_running_on'', ''start_date'', ''scraped_at'',
      ''permalink_url'', ''redirected_final_url'', ''currency'', ''keywords'',
      ''countrySearchedfor'', ''search_country'', ''country'', ''region'', ''platforms'',
      ''publisher_platform'', ''creative'', ''snapshot'',
      ''search_query'', ''search_media_type'', ''search_type'', ''categories'',
      ''page_categories'', ''page_like_count'', ''end_date'', ''collation_id'',
      ''collation_count'', ''contains_digital_created_media'',
      ''contains_sensitive_content'', ''is_profile_page'', ''page_is_deleted'',
      ''page_entity_type'', ''entity_type'', ''gated_type'', ''hide_data_status'',
      ''is_aaa_eligible'', ''targeted_or_reached_countries'', ''political_countries'']"

text \<open>The \<open>url-filter\<close> object: a copy, with a truthy \<open>url-filter-id\<close> turned into its
  string; \<open>null\<close> when the document has none.\<close>

definition urlFilter :: "mongo_doc \<Rightarrow> jsval" where
  "urlFilter d =
     (case field d ''url-filter'' of
        None \<Rightarrow> JNull
      | Some u \<Rightarrow>
          if truthy u then
            (let uf = spread u in
             case map_of uf ''url-filter-id'' of
               Some i \<Rightarrow>
                 if truthy i then JObj (AList.update ''url-filter-id'' (JStr (toString i)) uf)
                 else JObj uf
             | None \<Rightarrow> JObj uf)
          else JNull)"

text \<open>\<open>countrySearchedfor_all\<close> is normalised to an array of objects when it is an array.\<close>

fun country_item :: "jsval \<Rightarrow> jsval option" where
  "country_item (JStr s) = Some (JObj [(''country'', JStr s), (''is_active'', JNull)])"
| "country_item (JObj fs) =
     Some (JObj [(''country'', js_or (map_of fs ''country'') JNull),
                 (''is_active'', (case map_of fs ''is_active'' of Some a \<Rightarrow> a | None \<Rightarrow> JNull))])"
| "country_item (JArr xs) = Some (JObj [(''country'', JNull), (''is_active'', JNull)])"
| "country_item (JOid h) = Some (JObj [(''country'', JNull), (''is_active'', JNull)])"
| "country_item v = None"

definition countrySearchedfor_all :: "mongo_doc \<Rightarrow> jsval option" where
  "countrySearchedfor_all d =
     (case field d ''countrySearchedfor_all'' of
        Some (JArr xs) \<Rightarrow> Some (JArr (List.map_filter country_item xs))
      | other \<Rightarrow> other)"

text \<open>The two lines that \<open>bulkIndex\<close> pushes for one document: the update action and the
  document content.\<close>

definition bulk_entry :: "string \<Rightarrow> mongo_doc \<Rightarrow> update_action \<times> update_payload" where
  "bulk_entry idx_name d =
     (let docId = oid d in
      (\<lparr>a_index = idx_name, a_id = docId,
        routing = js_or (field d ''page_id'') (js_or (field d ''countrySearchedfor'') (JStr docId)),
        retry_on_conflict = 3\<rparr>,
       \<lparr>doc = stringify
          ((''mongo_id'', Some (JStr docId)) #
           map (\<lambda>k. (k, field d k)) copied_fields @
           [(''countrySearchedfor_all'', countrySearchedfor_all d),
            (''url-filter'', Some (urlFilter d)),
            (''url-filter-updated-at'', Some (js_or (field d ''url-filter-updated-at'') JNull))]),
        doc_as_upsert = True\<rparr>))"

text \<open>What \<open>bulkIndex\<close> returns; for an empty list the object has neither \<open>errors\<close> nor
  \<open>versionConflicts\<close>. The duration \<open>took\<close> is left out.\<close>

record bulk_result =
  success :: bool
  processed :: nat
  errors :: "nat option"
  versionConflicts :: "nat option"

definition bulkIndex :: "mongo_doc list \<Rightarrow> opensearch \<Rightarrow> (client_error + bulk_result) \<times> opensearch" where
  "bulkIndex documents os =
     (if documents = [] then
        (Inr \<lparr>success = True, processed = 0, errors = None, versionConflicts = None\<rparr>, os)
      else
        (let body = map (bulk_entry (indexName os)) documents in
         case client_bulk body os of
           (Inl error, os') \<Rightarrow> (Inl error, os')
         | (Inr items, os') \<Rightarrow>
             (let errs = filter (\<lambda>item. item \<noteq> None) items;
                  versionConflictItems =
                    filter (\<lambda>item. item = Some ''version_conflict_engine_exception'') errs;
                  actualErrors =
                    filter (\<lambda>item. item \<noteq> Some ''version_conflict_engine_exception'') errs
              in (Inr \<lparr>success = True, processed = length documents,
                       errors = Some (length actualErrors),
                       versionConflicts = Some (length versionConflictItems)\<rparr>, os'))))"

text \<open>\<open>deleteDocument\<close> returns \<open>{ success: true }\<close> (here \<open>True\<close>) or throws.\<close>

definition deleteDocument :: "string \<Rightarrow> opensearch \<Rightarrow> (client_error + bool) \<times> opensearch" where
  "deleteDocument docId os =
     (case client_delete docId os of
        (Inr u, os') \<Rightarrow> (Inr True, os')
      | (Inl error, os') \<Rightarrow>
          if error = ResponseError 404 then (Inr True, os') else (Inl error, os'))"

record index_stats =
  docs_count :: nat

definition getIndexStats :: "opensearch \<Rightarrow> (client_error + index_stats) \<times> opensearch" where
  "getIndexStats os =
     (case client_stats os of
        (Inr n, os') \<Rightarrow> (Inr \<lparr>docs_count = n\<rparr>, os')
      | (Inl error, os') \<Rightarrow> (Inl error, os'))"

section \<open>BulkProcessor\<close>

record queue_item =
  document :: mongo_doc
  operation :: string

text \<open>The processor: the configured batch size, the pending queue, the flag of a running
  pass and the counters of \<open>stats\<close>. The time stamp \<open>lastProcessed\<close> is left out, as are
  \<open>batchSizeBytes\<close> and \<open>concurrency\<close>, which no pass reads.\<close>

record processor =
  batchSize :: int
  queue :: "queue_item list"
  processing :: bool
  stats_processed :: nat
  stats_errors :: nat

text \<open>The deletes of a batch, one call each, up to the first that throws.\<close>

fun delete_each :: "string list \<Rightarrow> opensearch \<Rightarrow> (client_error + unit) \<times> opensearch" where
  "delete_each [] os = (Inr (), os)"
| "delete_each (docId # docIds) os =
     (case deleteDocument docId os of
        (Inl error, os') \<Rightarrow> (Inl error, os')
      | (Inr r, os') \<Rightarrow> delete_each docIds os')"

text \<open>One attempt of \<open>processBatchWithRetry\<close>: the body of its \<open>try\<close>.\<close>

definition attempt_batch :: "queue_item list \<Rightarrow> opensearch \<Rightarrow> (client_error + unit) \<times> opensearch" where
  "attempt_batch batch os =
     (let documents = map document (filter (\<lambda>item. operation item \<noteq> ''delete'') batch);
          deleteIds = map (\<lambda>item. oid (document item)) (filter (\<lambda>item. operation item = ''delete'') batch)
      in if documents \<noteq> [] then
           (case bulkIndex documents os of
              (Inl error, os') \<Rightarrow> (Inl error, os')
            | (Inr r, os') \<Rightarrow> delete_each deleteIds os')
         else delete_each deleteIds os)"

text \<open>The loop over the attempts; what is thrown in the end is \<open>lastError\<close>, undefined
  (\<open>None\<close>) when no attempt was made.\<close>

function retry_from :: "nat \<Rightarrow> nat \<Rightarrow> client_error option \<Rightarrow> queue_item list \<Rightarrow> opensearch
    \<Rightarrow> (client_error option + unit) \<times> opensearch" where
  "retry_from attempt maxRetries lastError batch os =
     (if attempt \<le> maxRetries then
        (case attempt_batch batch os of
           (Inr u, os') \<Rightarrow> (Inr (), os')
         | (Inl error, os') \<Rightarrow>
             retry_from (attempt + 1) maxRetries (Some error) batch
               (if attempt < maxRetries
                then os'\<lparr>sleeps := sleeps os' @ [2 ^ attempt * 1000]\<rparr> else os'))
      else (Inl lastError, os))"
  by pat_completeness auto
termination
  by (relation "measure (\<lambda>(attempt, maxRetries, lastError, batch, os). Suc maxRetries - attempt)") auto

declare retry_from.simps [simp del]

definition processBatchWithRetry :: "queue_item list \<Rightarrow> nat \<Rightarrow> opensearch
    \<Rightarrow> (client_error option + unit) \<times> opensearch" where
  "processBatchWithRetry batch maxRetries os = retry_from 1 maxRetries None batch os"

text \<open>\<open>queue.splice(0, batchSize)\<close> takes \<open>batchSize\<close> items, none when it is negative.\<close>

definition processBatch :: "processor \<Rightarrow> opensearch \<Rightarrow> processor \<times> opensearch" where
  "processBatch p os =
     (if processing p \<or> queue p = [] then (p, os)
      else
        (let batch = take (nat (batchSize p)) (queue p);
             p1 = p\<lparr>processing := True, queue := drop (nat (batchSize p)) (queue p)\<rparr>
         in case processBatchWithRetry batch 3 os of
              (Inr u, os') \<Rightarrow>
                (p1\<lparr>stats_processed := stats_processed p1 + length batch, processing := False\<rparr>, os')
            | (Inl error, os') \<Rightarrow>
                (p1\<lparr>stats_errors := stats_errors p1 + length batch,
                    queue := batch @ queue p1, processing := False\<rparr>, os')))"

definition addDocument :: "mongo_doc \<Rightarrow> string \<Rightarrow> processor \<Rightarrow> opensearch \<Rightarrow> processor \<times> opensearch" where
  "addDocument d opn p os =
     (let p1 = p\<lparr>queue := queue p @ [\<lparr>document = d, operation = opn\<rparr>]\<rparr>
      in if int (length (queue p1)) \<ge> batchSize p1 then processBatch p1 os else (p1, os))"

definition addDocuments :: "mongo_doc list \<Rightarrow> string \<Rightarrow> processor \<Rightarrow> opensearch \<Rightarrow> processor \<times> opensearch" where
  "addDocuments ds opn p os =
     (let p1 = p\<lparr>queue := queue p @ map (\<lambda>d. \<lparr>document = d, operation = opn\<rparr>) ds\<rparr>
      in if int (length (queue p1)) \<ge> batchSize p1 then processBatch p1 os else (p1, os))"

text \<open>\<open>flush\<close> runs passes until the queue is empty; it does not return while passes
  keep failing.\<close>

partial_function (option) flush :: "processor \<Rightarrow> opensearch \<Rightarrow> (processor \<times> opensearch) option" where
  "flush p os =
     (if queue p \<noteq> [] then (case processBatch p os of (p', os') \<Rightarrow> flush p' os')
      else Some (p, os))"

declare flush.simps [code]

text \<open>What reaches the processor: \<open>addDocument\<close>, \<open>addDocuments\<close>, or a pass of
  \<open>processBatch\<close> started by the timer or by \<open>flush\<close>; and a sequence of them.\<close>

datatype call = Add mongo_doc string | AddMany "mongo_doc list" string | Pass

fun run :: "call list \<Rightarrow> processor \<times> opensearch \<Rightarrow> processor \<times> opensearch" where
  "run [] s = s"
| "run (Add d opn # cs) s = run cs (addDocument d opn (fst s) (snd s))"
| "run (AddMany ds opn # cs) s = run cs (addDocuments ds opn (fst s) (snd s))"
| "run (Pass # cs) s = run cs (processBatch (fst s) (snd s))"

section \<open>ReconciliationService\<close>

text \<open>The service: whether it is running, and the counters of \<open>stats\<close> (the time stamps
  \<open>lastCheck\<close> and \<open>lastSync\<close> are left out).\<close>

record reconciliation =
  isRunning :: bool
  totalChecks :: nat
  totalSyncs :: nat
  documentsSynced :: nat
  recon_errors :: nat

text \<open>The objects that \<open>checkAndSync\<close> returns; a key that an object does not have is
  \<open>None\<close>.\<close>

record recon_result =
  r_success :: bool
  inSync :: "bool option"
  mongoCount :: "nat option"
  opensearchCount :: "nat option"
  difference :: "int option"
  synced :: "nat option"
  missingCount :: "nat option"
  orphanedDocs :: "nat option"
  r_error :: "client_error option"

definition no_result :: recon_result where
  "no_result = \<lparr>r_success = True, inSync = None, mongoCount = None, opensearchCount = None,
     difference = None, synced = None, missingCount = None, orphanedDocs = None, r_error = None\<rparr>"

text \<open>A JavaScript \<open>Set\<close> of strings is the list of its members in insertion order.\<close>

definition set_add :: "string \<Rightarrow> string list \<Rightarrow> string list" where
  "set_add x xs = (if x \<in> set xs then xs else xs @ [x])"

definition new_Set :: "string list \<Rightarrow> string list" where
  "new_Set xs = fold set_add xs []"

function getAllOpenSearchIds_from :: "string list \<Rightarrow> string option \<Rightarrow> opensearch
    \<Rightarrow> (client_error + string list) \<times> opensearch" where
  "getAllOpenSearchIds_from ids searchAfter os =
     (case client_search 1000 searchAfter os of
        (Inl error, os') \<Rightarrow> (Inl error, os')
      | (Inr hits, os') \<Rightarrow>
          if hits = [] then (Inr ids, os')
          else getAllOpenSearchIds_from (fold set_add hits ids) (Some (last hits)) os')"
  by pat_completeness auto
termination
proof (relation "measure (\<lambda>(ids, after, os).
    case after of None \<Rightarrow> Suc (length (index os))
    | Some a \<Rightarrow> length (filter (\<lambda>i. a < i) (map fst (index os))))")
  show "wf (measure (\<lambda>(ids, after, os).
    case after of None \<Rightarrow> Suc (length (index os))
    | Some a \<Rightarrow> length (filter (\<lambda>i. a < i) (map fst (index os)))))"
    by simp
next
  fix ids :: "string list" and searchAfter :: "string option" and os :: opensearch
    and r :: "client_error + string list" and os' :: opensearch and hits :: "string list"
  assume xr: "(r, os') = client_search 1000 searchAfter os"
    and r: "r = Inr hits" and ne: "hits \<noteq> []"
  let ?all = "map fst (index os)"
  let ?P = "\<lambda>i. case searchAfter of None \<Rightarrow> True | Some a \<Rightarrow> a < i"
  from xr r have idx: "index os' = index os"
    and hits: "hits = take 1000 (filter ?P (sort ?all))"
    by (auto simp: client_search_def Let_def split: list.splits reply.splits)
  from ne have "last hits \<in> set hits" by simp
  with hits have "last hits \<in> set (filter ?P (sort ?all))"
    by (metis in_set_takeD)
  then have mem: "last hits \<in> set ?all" and after: "?P (last hits)"
    by auto
  have less: "length (filter (\<lambda>i. last hits < i) ?all) < Suc (length ?all)"
    by (simp add: le_imp_less_Suc)
  show "((fold set_add hits ids, Some (last hits), os'), ids, searchAfter, os)
      \<in> measure (\<lambda>(ids, after, os).
          case after of None \<Rightarrow> Suc (length (index os))
          | Some a \<Rightarrow> length (filter (\<lambda>i. a < i) (map fst (index os))))"
  proof (cases searchAfter)
    case None
    with less idx show ?thesis by simp
  next
    case (Some a)
    with after have a: "a < last hits" by simp
    have "filter (\<lambda>i. last hits < i) ?all = filter (\<lambda>i. last hits < i) (filter (\<lambda>i. a < i) ?all)"
      using a by (auto intro: filter_cong)
    moreover have "length (filter (\<lambda>i. last hits < i) (filter (\<lambda>i. a < i) ?all))
        < length (filter (\<lambda>i. a < i) ?all)"
      by (rule length_filter_less [of "last hits"]) (use mem a in auto)
    ultimately have "length (filter (\<lambda>i. last hits < i) ?all) < length (filter (\<lambda>i. a < i) ?all)"
      by (simp only:)
    with Some idx show ?thesis by simp
  qed
qed

declare getAllOpenSearchIds_from.simps [simp del]

definition getAllOpenSearchIds :: "opensearch \<Rightarrow> (client_error + string list) \<times> opensearch" where
  "getAllOpenSearchIds os = getAllOpenSearchIds_from [] None os"

text \<open>The loop of \<open>syncDocumentsByIds\<close> from index \<open>i\<close>; a batch that throws is logged and
  skipped.\<close>

function syncDocumentsByIds_from :: "nat \<Rightarrow> nat \<Rightarrow> mongo_doc list \<Rightarrow> string list \<Rightarrow> opensearch
    \<Rightarrow> nat \<times> opensearch" where
  "syncDocumentsByIds_from i synced_so_far coll ids os =
     (if i < length ids then
        (let batchIds = take 100 (drop i ids);
             documents = find_in coll batchIds
         in if documents \<noteq> [] then
              (case bulkIndex documents os of
                 (Inr result, os') \<Rightarrow>
                   syncDocumentsByIds_from (i + 100) (synced_so_far + length documents) coll ids
                     (os'\<lparr>sleeps := sleeps os' @ [200]\<rparr>)
               | (Inl error, os') \<Rightarrow>
                   syncDocumentsByIds_from (i + 100) synced_so_far coll ids os')
            else syncDocumentsByIds_from (i + 100) synced_so_far coll ids
                   (os\<lparr>sleeps := sleeps os @ [200]\<rparr>))
      else (synced_so_far, os))"
  by pat_completeness auto
termination
  by (relation "measure (\<lambda>(i, s, coll, ids, os). length ids - i)") auto

declare syncDocumentsByIds_from.simps [simp del]

definition syncDocumentsByIds :: "mongo_doc list \<Rightarrow> string list \<Rightarrow> opensearch \<Rightarrow> nat \<times> opensearch" where
  "syncDocumentsByIds coll ids os = syncDocumentsByIds_from 0 0 coll ids os"

definition syncMissingDocuments :: "mongo_doc list \<Rightarrow> reconciliation \<Rightarrow> opensearch
    \<Rightarrow> (client_error + recon_result) \<times> reconciliation \<times> opensearch" where
  "syncMissingDocuments coll rs os =
     (let mongoIdSet = new_Set (map oid coll) in
      case getAllOpenSearchIds os of
        (Inl error, os') \<Rightarrow> (Inl error, rs, os')
      | (Inr osIdSet, os') \<Rightarrow>
          (let missingIds = filter (\<lambda>i. i \<notin> set osIdSet) mongoIdSet in
           if missingIds = [] then
             (Inr (no_result\<lparr>inSync := Some True, synced := Some 0, missingCount := Some 0\<rparr>),
              rs, os')
           else
             (let (n, os'') = syncDocumentsByIds coll missingIds os' in
              (Inr (no_result\<lparr>inSync := Some True, synced := Some n,
                      missingCount := Some (length missingIds)\<rparr>),
               rs\<lparr>totalSyncs := totalSyncs rs + 1, documentsSynced := documentsSynced rs + n\<rparr>,
               os''))))"

text \<open>\<open>checkAndSync\<close> returns nothing (\<open>None\<close>) when the service is not running.\<close>

definition checkAndSync :: "mongo_doc list \<Rightarrow> reconciliation \<Rightarrow> opensearch
    \<Rightarrow> recon_result option \<times> reconciliation \<times> opensearch" where
  "checkAndSync coll rs os =
     (if \<not> isRunning rs then (None, rs, os)
      else
        (let rs1 = rs\<lparr>totalChecks := totalChecks rs + 1\<rparr>;
             mongoCnt = countDocuments coll
         in case getIndexStats os of
              (Inl e, os') \<Rightarrow>
                (Some (no_result\<lparr>r_success := False, r_error := Some e\<rparr>),
                 rs1\<lparr>recon_errors := recon_errors rs1 + 1\<rparr>, os')
            | (Inr osStats, os') \<Rightarrow>
                (let osCount = docs_count osStats;
                     diff = int mongoCnt - int osCount
                 in if diff = 0 then
                      (Some (no_result\<lparr>inSync := Some True, mongoCount := Some mongoCnt,
                          opensearchCount := Some osCount, difference := Some 0, synced := Some 0\<rparr>),
                       rs1, os')
                    else if diff > 0 then
                      (case syncMissingDocuments coll rs1 os' of
                         (Inr result, rs2, os'') \<Rightarrow> (Some result, rs2, os'')
                       | (Inl e, rs2, os'') \<Rightarrow>
                           (Some (no_result\<lparr>r_success := False, r_error := Some e\<rparr>),
                            rs2\<lparr>recon_errors := recon_errors rs2 + 1\<rparr>, os''))
                    else
                      (Some (no_result\<lparr>inSync := Some False, mongoCount := Some mongoCnt,
                          opensearchCount := Some osCount, difference := Some diff, synced := Some 0,
                          orphanedDocs := Some (nat \<bar>diff\<bar>)\<rparr>),
                       rs1, os'))))"

section \<open>DocumentCountMonitor\<close>

text \<open>The monitor: its two settings and the counters of \<open>stats\<close> (time stamps left out).
  It counts the collection and the index through clients of its own; counting the
  collection does not fail here.\<close>

record monitor =
  autoSyncEnabled :: bool
  autoSyncThreshold :: int
  checksPerformed :: nat
  mismatchesDetected :: nat
  autoSyncTriggered :: nat

text \<open>The full-sync endpoint of the sync service, as the monitor reaches it: the bodies
  posted to it, whether the next calls throw, and the delays of the verification checks
  that were scheduled.\<close>

record post_body =
  pb_batchSize :: nat
  pb_difference :: nat
  pb_mongodb :: nat
  pb_opensearch :: nat

record sync_api =
  posts :: "post_body list"
  post_throws :: "bool list"
  timers :: "nat list"

record count_result =
  cr_mongodb :: nat
  cr_opensearch :: nat
  cr_difference :: nat
  isMatch :: bool
  cr_autoSyncTriggered :: nat

text \<open>\<open>logDetailedMismatchInfo\<close> asks the cluster whether the first five documents of the
  collection exist and logs the answers; it swallows every error.\<close>

definition logDetailedMismatchInfo :: "mongo_doc list \<Rightarrow> opensearch \<Rightarrow> opensearch" where
  "logDetailedMismatchInfo coll os =
     fold (\<lambda>i os'. snd (client_exists i os')) (map oid (take 5 coll)) os"

definition triggerAutoSync :: "nat \<Rightarrow> nat \<Rightarrow> nat \<Rightarrow> monitor \<Rightarrow> sync_api \<Rightarrow> monitor \<times> sync_api" where
  "triggerAutoSync diff mongoCnt osCnt m api =
     (let m1 = m\<lparr>autoSyncTriggered := autoSyncTriggered m + 1\<rparr>;
          api1 = api\<lparr>posts := posts api @ [\<lparr>pb_batchSize = 1000, pb_difference = diff,
                     pb_mongodb = mongoCnt, pb_opensearch = osCnt\<rparr>],
                   post_throws := tl (post_throws api)\<rparr>
      in case post_throws api of
           True # _ \<Rightarrow> (m1, api1)
         | _ \<Rightarrow> (m1, api1\<lparr>timers := timers api1 @ [30000]\<rparr>))"

definition performCountCheck :: "mongo_doc list \<Rightarrow> monitor \<Rightarrow> opensearch \<Rightarrow> sync_api
    \<Rightarrow> (client_error + count_result) \<times> monitor \<times> opensearch \<times> sync_api" where
  "performCountCheck coll m os api =
     (case client_count os of
        (Inl e, os1) \<Rightarrow> (Inl e, m, os1, api)
      | (Inr osCnt, os1) \<Rightarrow>
          (let mongoCnt = countDocuments coll;
               diff = nat \<bar>int mongoCnt - int osCnt\<bar>;
               match = (diff = 0);
               m1 = m\<lparr>checksPerformed := checksPerformed m + 1\<rparr>
           in if match then
                (Inr \<lparr>cr_mongodb = mongoCnt, cr_opensearch = osCnt, cr_difference = diff,
                      isMatch = match, cr_autoSyncTriggered = autoSyncTriggered m1\<rparr>, m1, os1, api)
              else
                (let m2 = m1\<lparr>mismatchesDetected := mismatchesDetected m1 + 1\<rparr>;
                     os2 = logDetailedMismatchInfo coll os1;
                     (m3, api') =
                       (if autoSyncEnabled m2 \<and> int diff > autoSyncThreshold m2
                        then triggerAutoSync diff mongoCnt osCnt m2 api else (m2, api))
                 in (Inr \<lparr>cr_mongodb = mongoCnt, cr_opensearch = osCnt, cr_difference = diff,
                          isMatch = match, cr_autoSyncTriggered = autoSyncTriggered m3\<rparr>,
                     m3, os2, api'))))"

section \<open>Vocabulary of the properties\<close>

text \<open>The cluster answers the next call of the client.\<close>

definition answers :: "opensearch \<Rightarrow> bool" where
  "answers os = (case script os of Throws e # _ \<Rightarrow> False | _ \<Rightarrow> True)"

text \<open>The items that the cluster rejects in the next call, when that is a bulk call.\<close>

definition rejected :: "opensearch \<Rightarrow> string option list" where
  "rejected os = (case script os of Responds rej # _ \<Rightarrow> rej | _ \<Rightarrow> [])"

text \<open>The index after the documents \<open>ds\<close> were upserted one after the other, none
  rejected.\<close>

definition upsert_all :: "string \<Rightarrow> mongo_doc list \<Rightarrow> (string \<times> fields) list \<Rightarrow> (string \<times> fields) list" where
  "upsert_all n ds idx = snd (apply_items (map (bulk_entry n) ds) [] idx)"

text \<open>Every bulk request among \<open>reqs\<close> carries at least one and at most \<open>b\<close> documents.\<close>

definition bulk_bounded :: "int \<Rightarrow> request list \<Rightarrow> bool" where
  "bulk_bounded b reqs =
     list_all (\<lambda>rq. case rq of BulkReq body \<Rightarrow> 1 \<le> length body \<and> int (length body) \<le> b | _ \<Rightarrow> True) reqs"

text \<open>A queue item for the identifier \<open>i\<close> with an otherwise empty document.\<close>

definition item_for :: "string \<Rightarrow> string \<Rightarrow> queue_item" where
  "item_for i opn = \<lparr>document = \<lparr>oid = i, props = []\<rparr>, operation = opn\<rparr>"

text \<open>The stored source \<open>t\<close> carries the content \<open>c\<close>: every key of \<open>c\<close> is a key of \<open>t\<close>, with
  the same value, or, where both values are objects, with a value that carries that of \<open>c\<close>.\<close>

function carries :: "fields \<Rightarrow> fields \<Rightarrow> bool" where
  "carries t [] = True"
| "carries t ((k, v) # c) =
     ((case (map_of t k, v) of
         (Some (JObj old), JObj new) \<Rightarrow> carries old new
       | (Some tv, _) \<Rightarrow> tv = v
       | (None, _) \<Rightarrow> False)
      \<and> carries t c)"
  by pat_completeness auto
termination
  by (relation "measure (\<lambda>(t, c). size_list (size_prod (\<lambda>_. 0) size) c)") auto

section \<open>Example states\<close>






section \<open>Properties of the target adapter\<close>

lemma apply_items_upserts:
  "list_all (\<lambda>item. doc_as_upsert (snd item)) body \<Longrightarrow>
     fst (apply_items body rej idx) = take (length body) rej @ replicate (length body - length rej) None"
proof (induction body arbitrary: rej idx)
  case Nil
  then show ?case by simp
next
  case (Cons item body)
  show ?case
  proof (cases rej)
    case Nil
    with Cons show ?thesis
      by (simp add: case_prod_beta apply_update_def split: option.splits)
  next
    case (Cons r rej')
    with Cons.prems Cons.IH show ?thesis
      by (cases r) (simp_all add: case_prod_beta apply_update_def split: option.splits)
  qed
qed

lemma bulk_entries_upsert: "list_all (\<lambda>item. doc_as_upsert (snd item)) (map (bulk_entry n) ds)"
  by (simp add: list_all_iff bulk_entry_def Let_def)

text \<open>
  Claim C9. Deleting an identifier that the index does not hold reports success and leaves
  the index as it is, whenever the cluster answers the call; and whenever the client's
  delete fails with status 404, \<open>deleteDocument\<close> returns success instead of throwing.
\<close>

theorem deleteDocument_absent_is_success:
  "(answers os \<and> docId \<notin> fst ` set (index os) \<longrightarrow>
      fst (deleteDocument docId os) = Inr True \<and> index (snd (deleteDocument docId os)) = index os)
   \<and> (fst (client_delete docId os) = Inl (ResponseError 404) \<longrightarrow>
      fst (deleteDocument docId os) = Inr True)"
  by (auto simp: deleteDocument_def client_delete_def answers_def Let_def
      split: list.splits reply.splits prod.splits sum.splits)

theorem deleteDocument_absent_is_success_witness:
  "answers \<lparr>indexName = ''ads'', index = [(''a1'', [])], script = [], requests = [], sleeps = []\<rparr>
   \<and> ''b2'' \<notin> fst ` set (index \<lparr>indexName = ''ads'', index = [(''a1'', [])], script = [],
          requests = [], sleeps = []\<rparr>)
   \<and> fst (client_delete ''b2'' \<lparr>indexName = ''ads'', index = [(''a1'', [])], script = [],
          requests = [], sleeps = []\<rparr>) = Inl (ResponseError 404)
   \<and> fst (deleteDocument ''b2'' \<lparr>indexName = ''ads'', index = [(''a1'', [])], script = [],
          requests = [], sleeps = []\<rparr>) = Inr True
   \<and> index (snd (deleteDocument ''b2'' \<lparr>indexName = ''ads'', index = [(''a1'', [])], script = [],
          requests = [], sleeps = []\<rparr>)) = [(''a1'', [])]"
  using deleteDocument_absent_is_success
    [of "\<lparr>indexName = ''ads'', index = [(''a1'', [])], script = [], requests = [], sleeps = []\<rparr>" "''b2''"]
  by (simp add: answers_def client_delete_def)

text \<open>
  Claim C10. When the cluster answers the bulk call for a non-empty list of documents,
  \<open>bulkIndex\<close> returns \<open>processed\<close> equal to the number of documents submitted, whatever
  items the cluster rejected: the rejected items with a version conflict are counted in
  \<open>versionConflicts\<close>, the other rejected items in \<open>errors\<close>, and neither count is taken off
  \<open>processed\<close>.
\<close>

theorem bulkIndex_processed_counts_submitted:
  assumes "documents \<noteq> []" and "answers os"
  shows "fst (bulkIndex documents os) =
     Inr \<lparr>success = True, processed = length documents,
          errors = Some (length (filter (\<lambda>r. r \<noteq> None \<and> r \<noteq> Some ''version_conflict_engine_exception'')
                      (take (length documents) (rejected os)))),
          versionConflicts = Some (length (filter (\<lambda>r. r = Some ''version_conflict_engine_exception'')
                      (take (length documents) (rejected os))))\<rparr>"
proof -
  let ?body = "map (bulk_entry (indexName os)) documents"
  let ?rej = "rejected os"
  have items: "fst (apply_items ?body ?rej (index os))
      = take (length documents) ?rej @ replicate (length documents - length ?rej) None"
    using apply_items_upserts [OF bulk_entries_upsert, of "indexName os" documents ?rej "index os"]
    by simp
  have f1: "filter (\<lambda>item. item \<noteq> Some ''version_conflict_engine_exception'')
       (filter (\<lambda>item. item \<noteq> None)
          (take (length documents) ?rej @ replicate (length documents - length ?rej) None))
     = filter (\<lambda>r. r \<noteq> None \<and> r \<noteq> Some ''version_conflict_engine_exception'')
          (take (length documents) ?rej)"
    by (auto simp: filter_empty_conv intro: filter_cong)
  have f2: "filter (\<lambda>item. item = Some ''version_conflict_engine_exception'')
       (filter (\<lambda>item. item \<noteq> None)
          (take (length documents) ?rej @ replicate (length documents - length ?rej) None))
     = filter (\<lambda>r. r = Some ''version_conflict_engine_exception'') (take (length documents) ?rej)"
    by (auto simp: filter_empty_conv intro: filter_cong)
  have bulk: "client_bulk ?body os =
      (Inr (fst (apply_items ?body ?rej (index os))),
       os\<lparr>requests := requests os @ [BulkReq ?body], script := tl (script os),
          index := snd (apply_items ?body ?rej (index os))\<rparr>)"
    using assms(2)
    by (simp add: client_bulk_def answers_def rejected_def Let_def case_prod_beta
        split: list.splits reply.splits)
  show ?thesis
    using assms(1) items f1 f2
    by (simp add: bulkIndex_def bulk Let_def)
qed

theorem bulkIndex_processed_counts_submitted_witness:
  "[\<lparr>oid = ''a1'', props = []\<rparr>, \<lparr>oid = ''a2'', props = []\<rparr>, \<lparr>oid = ''a3'', props = []\<rparr>] \<noteq> []
   \<and> answers \<lparr>indexName = ''ads'', index = [],
        script = [Responds [Some ''mapper_parsing_exception'', None,
                            Some ''version_conflict_engine_exception'']],
        requests = [], sleeps = []\<rparr>
   \<and> fst (bulkIndex [\<lparr>oid = ''a1'', props = []\<rparr>, \<lparr>oid = ''a2'', props = []\<rparr>, \<lparr>oid = ''a3'', props = []\<rparr>]
        \<lparr>indexName = ''ads'', index = [],
         script = [Responds [Some ''mapper_parsing_exception'', None,
                             Some ''version_conflict_engine_exception'']],
         requests = [], sleeps = []\<rparr>)
      = Inr \<lparr>success = True, processed = 3, errors = Some 1, versionConflicts = Some 1\<rparr>"
  using bulkIndex_processed_counts_submitted
    [of "[\<lparr>oid = ''a1'', props = []\<rparr>, \<lparr>oid = ''a2'', props = []\<rparr>, \<lparr>oid = ''a3'', props = []\<rparr>]"
        "\<lparr>indexName = ''ads'', index = [],
          script = [Responds [Some ''mapper_parsing_exception'', None,
                              Some ''version_conflict_engine_exception'']],
          requests = [], sleeps = []\<rparr>"]
  by (simp add: answers_def rejected_def)

lemma apply_items_append:
  "snd (apply_items (xs @ ys) [] idx) = snd (apply_items ys [] (snd (apply_items xs [] idx)))"
  by (induction xs arbitrary: idx) (simp_all add: case_prod_beta)

lemma upsert_all_append: "upsert_all n (xs @ ys) idx = upsert_all n ys (upsert_all n xs idx)"
  by (simp add: upsert_all_def apply_items_append)

lemma upsert_all_Nil: "upsert_all n [] idx = idx"
  by (simp add: upsert_all_def)

lemma bulkIndex_healthy:
  assumes "script os = []"
  shows "\<exists>r. fst (bulkIndex ds os) = Inr r"
    and "script (snd (bulkIndex ds os)) = []"
    and "index (snd (bulkIndex ds os)) = upsert_all (indexName os) ds (index os)"
    and "indexName (snd (bulkIndex ds os)) = indexName os"
    and "sleeps (snd (bulkIndex ds os)) = sleeps os"
  using assms
  by (simp_all add: bulkIndex_def client_bulk_def Let_def case_prod_beta upsert_all_def)

section \<open>Partial updates\<close>

lemma carries_merge_id: "carries t c \<Longrightarrow> merge_obj t c = t"
proof (induction t c rule: merge_obj.induct)
  case (1 src)
  then show ?case by simp
next
  case (2 src k v chg)
  define v' where "v' = (case (map_of src k, v) of
           (Some (JObj old), JObj new) \<Rightarrow> JObj (merge_obj old new)
         | _ \<Rightarrow> v)"
  have step: "merge_obj src ((k, v) # chg) = merge_obj (AList.update k v' src) chg"
    by (simp add: v'_def)
  have ih2: "carries (AList.update k v' src) chg \<Longrightarrow>
      merge_obj (AList.update k v' src) chg = AList.update k v' src"
    using "2.IH"(2) by (simp add: v'_def)
  from "2.prems" have c2: "carries src chg" by simp
  have upd: "AList.update k v' src = src"
  proof (cases "map_of src k")
    case None
    with "2.prems" show ?thesis by simp
  next
    case (Some tv)
    show ?thesis
    proof (cases "\<exists>old new. tv = JObj old \<and> v = JObj new")
      case True
      then obtain old new where on: "tv = JObj old" "v = JObj new" by blast
      with Some "2.prems" have "carries old new" by simp
      from "2.IH"(1) [OF refl Some on(1) on(2) this]
      have "merge_obj old new = old" .
      with Some on show ?thesis by (simp add: v'_def update_triv)
    next
      case False
      with Some "2.prems" have "tv = v"
        by (cases tv; cases v) simp_all
      with Some False show ?thesis
        by (cases tv; cases v) (simp_all add: v'_def update_triv)
    qed
  qed
  from step ih2 upd c2 show ?case by simp
qed

lemma map_of_merge_other: "k \<notin> fst ` set c \<Longrightarrow> map_of (merge_obj t c) k = map_of t k"
proof (induction t c rule: merge_obj.induct)
  case (1 src)
  then show ?case by simp
next
  case (2 src k' v chg)
  define v' where "v' = (case (map_of src k', v) of
           (Some (JObj old), JObj new) \<Rightarrow> JObj (merge_obj old new)
         | _ \<Rightarrow> v)"
  have step: "merge_obj src ((k', v) # chg) = merge_obj (AList.update k' v' src) chg"
    by (simp add: v'_def)
  have ih2: "k \<notin> fst ` set chg \<Longrightarrow>
      map_of (merge_obj (AList.update k' v' src) chg) k = map_of (AList.update k' v' src) k"
    using "2.IH"(2) by (simp add: v'_def)
  from "2.prems" have "k \<noteq> k'" "k \<notin> fst ` set chg" by auto
  with step ih2 show ?case by (simp add: update_conv')
qed

lemma carries_lookup:
  "distinct_keys (JObj c) \<Longrightarrow> list_all (\<lambda>kv. map_of t (fst kv) = Some (snd kv)) c \<Longrightarrow> carries t c"
proof (induction t c rule: carries.induct)
  case (1 t)
  then show ?case by simp
next
  case (2 t k v c)
  from "2.prems" have tk: "map_of t k = Some v" and dv: "distinct_keys v"
    and dc: "distinct_keys (JObj c)" and lc: "list_all (\<lambda>kv. map_of t (fst kv) = Some (snd kv)) c"
    by simp_all
  have rest: "carries t c" using "2.IH"(2) dc lc by simp
  have here: "(case (map_of t k, v) of
         (Some (JObj old), JObj new) \<Rightarrow> carries old new
       | (Some tv, _) \<Rightarrow> tv = v
       | (None, _) \<Rightarrow> False)"
  proof (cases v)
    case (JObj p)
    with dv have "distinct (map fst p)" by simp
    then have "list_all (\<lambda>kv. map_of p (fst kv) = Some (snd kv)) p"
      by (simp add: list_all_iff)
    from "2.IH"(1) [OF refl tk JObj JObj _ this] dv JObj have "carries p p" by simp
    with tk JObj show ?thesis by simp
  qed (use tk in simp_all)
  from here rest show ?case by simp
qed

lemma carries_self: "distinct_keys (JObj c) \<Longrightarrow> carries c c"
  by (rule carries_lookup) (simp_all add: list_all_iff)

lemma carries_merge: "distinct_keys (JObj c) \<Longrightarrow> carries (merge_obj t c) c"
proof (induction t c rule: merge_obj.induct)
  case (1 src)
  then show ?case by simp
next
  case (2 src k v chg)
  define v' where "v' = (case (map_of src k, v) of
           (Some (JObj old), JObj new) \<Rightarrow> JObj (merge_obj old new)
         | _ \<Rightarrow> v)"
  let ?R = "merge_obj (AList.update k v' src) chg"
  have step: "merge_obj src ((k, v) # chg) = ?R"
    by (simp add: v'_def)
  from "2.prems" have k: "k \<notin> fst ` set chg" and dv: "distinct_keys v"
    and dc: "distinct_keys (JObj chg)"
    by simp_all
  have rest: "carries ?R chg"
    using "2.IH"(2) dc by (simp add: v'_def)
  have Rk: "map_of ?R k = Some v'"
    using map_of_merge_other [OF k] by (simp add: update_conv')
  have here: "(case (Some v', v) of
         (Some (JObj old), JObj new) \<Rightarrow> carries old new
       | (Some tv, _) \<Rightarrow> tv = v
       | (None, _) \<Rightarrow> False)"
  proof (cases "\<exists>old new. map_of src k = Some (JObj old) \<and> v = JObj new")
    case True
    then obtain old new where on: "map_of src k = Some (JObj old)" "v = JObj new" by blast
    with dv have "distinct_keys (JObj new)" by simp
    from "2.IH"(1) [OF refl on(1) refl on(2) this] have "carries (merge_obj old new) new" .
    with on show ?thesis by (simp add: v'_def)
  next
    case False
    then have v': "v' = v"
      by (auto simp: v'_def split: option.splits jsval.splits)
    show ?thesis
    proof (cases v)
      case (JObj p)
      with dv carries_self [of p] v' show ?thesis by simp
    qed (use v' in simp_all)
  qed
  from here rest Rk step show ?case by simp
qed

lemma merge_obj_idem: "distinct_keys (JObj c) \<Longrightarrow> merge_obj (merge_obj t c) c = merge_obj t c"
  by (rule carries_merge_id) (rule carries_merge)

lemma merge_obj_self: "distinct_keys (JObj c) \<Longrightarrow> merge_obj c c = c"
  by (rule carries_merge_id) (rule carries_self)


lemma string_of_nat_nonempty: "string_of_nat n \<noteq> []"
  by (subst string_of_nat.simps) simp

lemma digit_inj:
  assumes "a < 10" and "b < 10" and "''0123456789'' ! a = ''0123456789'' ! b"
  shows "a = b"
proof -
  have "distinct ''0123456789''" by simp
  with assms show ?thesis by (simp add: nth_eq_iff_index_eq)
qed

lemma string_of_nat_inj: "string_of_nat n = string_of_nat m \<Longrightarrow> n = m"
proof (induction n arbitrary: m rule: string_of_nat.induct)
  case (1 n)
  show ?case
  proof (cases "n < 10")
    case n: True
    show ?thesis
    proof (cases "m < 10")
      case True
      with n "1.prems" show ?thesis
        by (subst (asm) string_of_nat.simps, subst (asm) (2) string_of_nat.simps) (simp add: digit_inj)
    next
      case False
      with n "1.prems" string_of_nat_nonempty [of "m div 10"] show ?thesis
        by (subst (asm) string_of_nat.simps, subst (asm) (2) string_of_nat.simps) simp
    qed
  next
    case n: False
    show ?thesis
    proof (cases "m < 10")
      case True
      with n "1.prems" string_of_nat_nonempty [of "n div 10"] show ?thesis
        by (subst (asm) string_of_nat.simps, subst (asm) (2) string_of_nat.simps) simp
    next
      case False
      with n "1.prems" have e: "string_of_nat (n div 10) = string_of_nat (m div 10)"
        and d: "''0123456789'' ! (n mod 10) = ''0123456789'' ! (m mod 10)"
        by (subst (asm) string_of_nat.simps, subst (asm) (2) string_of_nat.simps, simp)+
      from "1.IH" [OF n e] have "n div 10 = m div 10" .
      moreover from d have "n mod 10 = m mod 10" by (intro digit_inj) simp_all
      ultimately show ?thesis by (metis div_mult_mod_eq)
    qed
  qed
qed

lemma distinct_index_keys: "distinct (map string_of_nat [0..<n])"
  by (simp add: distinct_map inj_on_def string_of_nat_inj)

lemma to_json_distinct: "distinct_keys v \<Longrightarrow> distinct_keys (to_json v)"
proof (induction v rule: to_json.induct)
  case (3 fs)
  have keys: "map fst (map (\<lambda>(k, v). (k, to_json v)) fs) = map fst fs"
    by (induction fs) auto
  from 3 have "list_all (\<lambda>kv. distinct_keys (snd kv)) (map (\<lambda>(k, v). (k, to_json v)) fs)"
    by (auto simp: list_all_iff)
  with 3 keys show ?case by (simp del: map_map)
qed (simp_all add: list_all_iff)

lemma stringify_keys: "map fst (stringify l) = map fst (filter (\<lambda>kv. snd kv \<noteq> None) l)"
  by (induction l rule: stringify.induct) simp_all

lemma stringify_distinct:
  assumes "distinct (map fst l)" and "list_all (\<lambda>kv. case snd kv of None \<Rightarrow> True | Some v \<Rightarrow> distinct_keys v) l"
  shows "distinct_keys (JObj (stringify l))"
proof -
  have "distinct (map fst (stringify l))"
    using assms(1) by (simp add: stringify_keys distinct_map_filter)
  moreover have "list_all (\<lambda>kv. distinct_keys (snd kv)) (stringify l)"
    using assms(2) by (induction l rule: stringify.induct) (simp_all add: to_json_distinct)
  ultimately show ?thesis by simp
qed

lemma field_distinct:
  assumes "distinct_keys (JObj (props d))"
  shows "case field d k of None \<Rightarrow> True | Some v \<Rightarrow> distinct_keys v"
proof (cases "field d k")
  case (Some v)
  then have "(k, v) \<in> set (props d)" by (auto simp: field_def dest: map_of_SomeD)
  with assms Some show ?thesis by (auto simp: list_all_iff)
qed simp

lemma lookup_distinct:
  "distinct_keys (JObj fs) \<Longrightarrow> map_of fs k = Some v \<Longrightarrow> distinct_keys v"
  by (auto simp: list_all_iff dest: map_of_SomeD)

lemma country_item_distinct:
  assumes "distinct_keys x" and "country_item x = Some y"
  shows "distinct_keys y"
proof (cases x)
  case (JObj fs)
  note l = lookup_distinct [OF assms(1) [unfolded JObj]]
  have c: "distinct_keys (js_or (map_of fs ''country'') JNull)"
    using l [of "''country''"] by (simp add: js_or_def split: option.splits)
  have a: "distinct_keys (case map_of fs ''is_active'' of Some a \<Rightarrow> a | None \<Rightarrow> JNull)"
    using l [of "''is_active''"] by (simp split: option.splits)
  from assms(2) JObj c a show ?thesis by auto
qed (use assms in auto)

lemma countrySearchedfor_all_distinct:
  assumes "distinct_keys (JObj (props d))"
  shows "case countrySearchedfor_all d of None \<Rightarrow> True | Some v \<Rightarrow> distinct_keys v"
proof (cases "field d ''countrySearchedfor_all''")
  case None
  then show ?thesis by (simp add: countrySearchedfor_all_def)
next
  case (Some v)
  with field_distinct [OF assms, of "''countrySearchedfor_all''"] have dv: "distinct_keys v" by simp
  show ?thesis
  proof (cases v)
    case (JArr xs)
    with dv have "list_all distinct_keys (List.map_filter country_item xs)"
      by (auto simp: list_all_iff map_filter_def intro: country_item_distinct)
    with Some JArr show ?thesis by (simp add: countrySearchedfor_all_def)
  qed (use Some dv in \<open>simp_all add: countrySearchedfor_all_def\<close>)
qed

lemma spread_distinct: "distinct_keys u \<Longrightarrow> distinct_keys (JObj (spread u))"
proof (cases u)
  case (JArr xs)
  assume "distinct_keys u"
  with JArr show ?thesis
    by (auto simp: list_all_iff distinct_index_keys dest: set_zip_rightD)
next
  case (JStr s)
  then show ?thesis
    by (auto simp: list_all_iff distinct_index_keys dest!: set_zip_rightD)
qed simp_all

lemma list_all_update:
  "list_all P al \<Longrightarrow> P (k, v) \<Longrightarrow> list_all P (AList.update k v al)"
  by (induction al) auto

lemma urlFilter_distinct:
  assumes "distinct_keys (JObj (props d))"
  shows "distinct_keys (urlFilter d)"
proof (cases "field d ''url-filter''")
  case None
  then show ?thesis by (simp add: urlFilter_def)
next
  case (Some u)
  with field_distinct [OF assms, of "''url-filter''"] have "distinct_keys u" by simp
  from spread_distinct [OF this] have s: "distinct (map fst (spread u))"
    "list_all (\<lambda>kv. distinct_keys (snd kv)) (spread u)" by simp_all
  have "distinct_keys (JObj (AList.update ''url-filter-id'' (JStr x) (spread u)))" for x
    using s by (simp add: distinct_update list_all_update)
  with s Some show ?thesis
    by (simp add: urlFilter_def Let_def split: option.splits)
qed

lemma all_keys_distinct:
  "distinct (''mongo_id'' # copied_fields @
      [''countrySearchedfor_all'', ''url-filter'', ''url-filter-updated-at''])"
  by (simp add: copied_fields_def)

lemma bulk_entry_distinct:
  assumes "distinct_keys (JObj (props d))"
  shows "distinct_keys (JObj (doc (snd (bulk_entry n d))))"
proof -
  let ?l = "(''mongo_id'', Some (JStr (oid d))) #
           map (\<lambda>k. (k, field d k)) copied_fields @
           [(''countrySearchedfor_all'', countrySearchedfor_all d),
            (''url-filter'', Some (urlFilter d)),
            (''url-filter-updated-at'', Some (js_or (field d ''url-filter-updated-at'') JNull))]"
  have keys: "map fst ?l = ''mongo_id'' # copied_fields @
      [''countrySearchedfor_all'', ''url-filter'', ''url-filter-updated-at'']"
    by (simp add: comp_def)
  have d1: "distinct (map fst ?l)"
    unfolding keys by (rule all_keys_distinct)
  have upd: "distinct_keys (js_or (field d ''url-filter-updated-at'') JNull)"
    using field_distinct [OF assms, of "''url-filter-updated-at''"]
    by (simp add: js_or_def split: option.splits)
  have d2: "list_all (\<lambda>kv. case snd kv of None \<Rightarrow> True | Some v \<Rightarrow> distinct_keys v) ?l"
    using field_distinct [OF assms] countrySearchedfor_all_distinct [OF assms]
      urlFilter_distinct [OF assms] upd
    by (simp add: list_all_iff)
  from stringify_distinct [OF d1 d2] show ?thesis
    by (simp add: bulk_entry_def Let_def)
qed

text \<open>
  Claim C2. Every entry that \<open>bulkIndex\<close> builds is an update with \<open>doc_as_upsert\<close>, which
  creates the document when the index does not hold it and merges the content into the
  stored source when it does. When the cluster answers and rejects nothing, sending the
  same document a second time leaves the index exactly as the first time left it.
\<close>

theorem bulkIndex_twice_is_once:
  assumes "script os = []" and "distinct_keys (JObj (props d))"
  shows "doc_as_upsert (snd (bulk_entry (indexName os) d))
    \<and> index (snd (bulkIndex [d] os)) =
        (case map_of (index os) (oid d) of
           None \<Rightarrow> index os @ [(oid d, doc (snd (bulk_entry (indexName os) d)))]
         | Some old \<Rightarrow>
             AList.update (oid d) (merge_obj old (doc (snd (bulk_entry (indexName os) d)))) (index os))
    \<and> index (snd (bulkIndex [d] (snd (bulkIndex [d] os)))) = index (snd (bulkIndex [d] os))"
proof -
  let ?os1 = "snd (bulkIndex [d] os)"
  let ?e = "bulk_entry (indexName os) d"
  let ?c = "doc (snd ?e)"
  note h1 = bulkIndex_healthy(2-4) [OF assms(1), of "[d]"]
  note h2 = bulkIndex_healthy(3) [OF h1(1), of "[d]"]
  have dc: "distinct_keys (JObj ?c)" by (rule bulk_entry_distinct [OF assms(2)])
  have up: "doc_as_upsert (snd ?e)" "a_id (fst ?e) = oid d" by (simp_all add: bulk_entry_def Let_def)
  have "snd (apply_update ?e (snd (apply_update ?e (index os)))) = snd (apply_update ?e (index os))"
  proof (cases "map_of (index os) (oid d)")
    case None
    then have "oid d \<notin> fst ` set (index os)" by (simp add: map_of_eq_None_iff)
    then have "map_of (index os @ [(oid d, ?c)]) (oid d) = Some ?c"
      by (simp add: map_add_Some_iff map_of_eq_None_iff)
    with None up merge_obj_self [OF dc] show ?thesis
      by (simp add: apply_update_def update_triv)
  next
    case (Some old)
    with up merge_obj_idem [OF dc, of old] show ?thesis
      by (simp add: apply_update_def update_conv')
  qed
  moreover have "snd (apply_update ?e (index os)) =
        (case map_of (index os) (oid d) of
           None \<Rightarrow> index os @ [(oid d, ?c)]
         | Some old \<Rightarrow> AList.update (oid d) (merge_obj old ?c) (index os))"
    using up by (simp add: apply_update_def split: option.splits)
  ultimately show ?thesis
    using up(1) by (simp add: h2 h1 upsert_all_def case_prod_beta)
qed

theorem bulkIndex_twice_is_once_witness:
  "script \<lparr>indexName = ''ads'',
       index = [(''a1'', [(''mongo_id'', JStr ''a1''), (''status'', JStr ''paused''), (''image_phash'', JStr ''9f3c'')])],
       script = [], requests = [], sleeps = []\<rparr> = []
   \<and> distinct_keys (JObj (props \<lparr>oid = ''a1'',
         props = [(''status'', JStr ''active''), (''creative'', JObj [(''headline'', JStr ''Sale'')])]\<rparr>))
   \<and> index (snd (bulkIndex [\<lparr>oid = ''a1'',
         props = [(''status'', JStr ''active''), (''creative'', JObj [(''headline'', JStr ''Sale'')])]\<rparr>]
       (snd (bulkIndex [\<lparr>oid = ''a1'',
         props = [(''status'', JStr ''active''), (''creative'', JObj [(''headline'', JStr ''Sale'')])]\<rparr>]
         \<lparr>indexName = ''ads'',
          index = [(''a1'', [(''mongo_id'', JStr ''a1''), (''status'', JStr ''paused''), (''image_phash'', JStr ''9f3c'')])],
          script = [], requests = [], sleeps = []\<rparr>))))
     = index (snd (bulkIndex [\<lparr>oid = ''a1'',
         props = [(''status'', JStr ''active''), (''creative'', JObj [(''headline'', JStr ''Sale'')])]\<rparr>]
         \<lparr>indexName = ''ads'',
          index = [(''a1'', [(''mongo_id'', JStr ''a1''), (''status'', JStr ''paused''), (''image_phash'', JStr ''9f3c'')])],
          script = [], requests = [], sleeps = []\<rparr>))"
  using bulkIndex_twice_is_once
    [where os = "\<lparr>indexName = ''ads'',
          index = [(''a1'', [(''mongo_id'', JStr ''a1''), (''status'', JStr ''paused''), (''image_phash'', JStr ''9f3c'')])],
          script = [], requests = [], sleeps = []\<rparr>"
       and d = "\<lparr>oid = ''a1'',
         props = [(''status'', JStr ''active''), (''creative'', JObj [(''headline'', JStr ''Sale'')])]\<rparr>"]
  by simp

section \<open>Properties of the drift detector\<close>

lemma posts_trigger: "posts (snd (triggerAutoSync d a b m api)) \<noteq> posts api"
  by (simp add: triggerAutoSync_def Let_def split: list.splits bool.splits)

lemma trig_trigger: "autoSyncTriggered (fst (triggerAutoSync d a b m api)) = autoSyncTriggered m + 1"
  by (simp add: triggerAutoSync_def Let_def split: list.splits bool.splits)

text \<open>
  Claim C8. When the count of the cluster is obtained and equals the count of the
  collection, \<open>performCountCheck\<close> returns \<open>isMatch\<close> true with difference 0, posts nothing to
  the full-sync endpoint and leaves \<open>autoSyncTriggered\<close> as it was. In every case, a post to
  the full-sync endpoint is made exactly when the counts were obtained and differ, auto-sync
  is enabled and the absolute difference exceeds the threshold; \<open>autoSyncTriggered\<close> changes
  exactly then.
\<close>

theorem performCountCheck_sync_only_on_drift:
  "(case performCountCheck coll m os api of (res, m', os', api') \<Rightarrow>
      (answers os \<and> countDocuments coll = length (index os) \<longrightarrow>
         (\<exists>r. res = Inr r \<and> isMatch r \<and> cr_difference r = 0)
         \<and> api' = api \<and> autoSyncTriggered m' = autoSyncTriggered m)
      \<and> ((posts api' \<noteq> posts api) =
           (answers os \<and> countDocuments coll \<noteq> length (index os) \<and> autoSyncEnabled m
            \<and> \<bar>int (countDocuments coll) - int (length (index os))\<bar> > autoSyncThreshold m))
      \<and> ((autoSyncTriggered m' \<noteq> autoSyncTriggered m) = (posts api' \<noteq> posts api)))"
  by (auto simp: performCountCheck_def client_count_def answers_def Let_def case_prod_beta
        posts_trigger trig_trigger
      split: list.splits reply.splits)

theorem performCountCheck_sync_only_on_drift_witness:
  "answers \<lparr>indexName = ''ads'', index = [(''a1'', []), (''a2'', [])], script = [], requests = [], sleeps = []\<rparr>
   \<and> countDocuments [\<lparr>oid = ''a1'', props = []\<rparr>, \<lparr>oid = ''a2'', props = []\<rparr>] = 2
   \<and> (case performCountCheck [\<lparr>oid = ''a1'', props = []\<rparr>, \<lparr>oid = ''a2'', props = []\<rparr>]
        \<lparr>autoSyncEnabled = True, autoSyncThreshold = 100, checksPerformed = 0,
         mismatchesDetected = 0, autoSyncTriggered = 0\<rparr>
        \<lparr>indexName = ''ads'', index = [(''a1'', []), (''a2'', [])], script = [], requests = [], sleeps = []\<rparr>
        \<lparr>posts = [], post_throws = [], timers = []\<rparr> of (res, m', os', api') \<Rightarrow>
          (\<exists>r. res = Inr r \<and> isMatch r \<and> cr_difference r = 0) \<and> posts api' = [] \<and> autoSyncTriggered m' = 0)"
  using performCountCheck_sync_only_on_drift
    [where coll = "[\<lparr>oid = ''a1'', props = []\<rparr>, \<lparr>oid = ''a2'', props = []\<rparr>]"
       and m = "\<lparr>autoSyncEnabled = True, autoSyncThreshold = 100, checksPerformed = 0,
         mismatchesDetected = 0, autoSyncTriggered = 0\<rparr>"
       and os = "\<lparr>indexName = ''ads'', index = [(''a1'', []), (''a2'', [])], script = [],
         requests = [], sleeps = []\<rparr>"
       and api = "\<lparr>posts = [], post_throws = [], timers = []\<rparr>"]
  by (simp add: answers_def countDocuments_def split: prod.splits)

section \<open>Properties of the batch processor\<close>

lemma attempt_batch_throws:
  assumes "batch \<noteq> []" and "script os = Throws e # rest" and "e \<noteq> ResponseError 404"
  shows "\<exists>rq. attempt_batch batch os = (Inl e, os\<lparr>requests := requests os @ [rq], script := rest\<rparr>)"
proof (cases "filter (\<lambda>item. operation item \<noteq> ''delete'') batch = []")
  case False
  with assms show ?thesis
    by (auto simp: attempt_batch_def bulkIndex_def client_bulk_def Let_def)
next
  case True
  with assms(1) have "filter (\<lambda>item. operation item = ''delete'') batch \<noteq> []"
    by (auto simp: filter_empty_conv)
  then obtain i more where "map (\<lambda>item. oid (document item)) (filter (\<lambda>item. operation item = ''delete'') batch) = i # more"
    by (cases "filter (\<lambda>item. operation item = ''delete'') batch") auto
  with True assms show ?thesis
    by (auto simp: attempt_batch_def deleteDocument_def client_delete_def Let_def)
qed

lemma retry_three_throws:
  assumes "batch \<noteq> []" and "script os = Throws e1 # Throws e2 # Throws e3 # rest"
    and "e1 \<noteq> ResponseError 404" and "e2 \<noteq> ResponseError 404" and "e3 \<noteq> ResponseError 404"
  shows "\<exists>r1 r2 r3. processBatchWithRetry batch 3 os =
     (Inl (Some e3), os\<lparr>requests := requests os @ [r1, r2, r3], script := rest,
                         sleeps := sleeps os @ [2000, 4000]\<rparr>)"
proof -
  from attempt_batch_throws [OF assms(1) assms(2) assms(3)]
  obtain r1 where a1: "attempt_batch batch os =
      (Inl e1, os\<lparr>requests := requests os @ [r1], script := Throws e2 # Throws e3 # rest\<rparr>)"
    by blast
  let ?os1 = "os\<lparr>requests := requests os @ [r1], script := Throws e2 # Throws e3 # rest,
      sleeps := sleeps os @ [2000]\<rparr>"
  from attempt_batch_throws [OF assms(1) _ assms(4), of ?os1 "Throws e3 # rest"]
  obtain r2 where a2: "attempt_batch batch ?os1 =
      (Inl e2, ?os1\<lparr>requests := requests ?os1 @ [r2], script := Throws e3 # rest\<rparr>)"
    by auto
  let ?os2 = "os\<lparr>requests := requests os @ [r1, r2], script := Throws e3 # rest,
      sleeps := sleeps os @ [2000, 4000]\<rparr>"
  from attempt_batch_throws [OF assms(1) _ assms(5), of ?os2 rest]
  obtain r3 where a3: "attempt_batch batch ?os2 =
      (Inl e3, ?os2\<lparr>requests := requests ?os2 @ [r3], script := rest\<rparr>)"
    by auto
  have "processBatchWithRetry batch 3 os =
     (Inl (Some e3), os\<lparr>requests := requests os @ [r1, r2, r3], script := rest,
                         sleeps := sleeps os @ [2000, 4000]\<rparr>)"
    unfolding processBatchWithRetry_def
    apply (subst retry_from.simps)
    apply (simp add: a1)
    apply (subst retry_from.simps)
    apply (simp add: a2)
    apply (subst retry_from.simps)
    apply (simp add: a3)
    apply (subst retry_from.simps)
    apply simp
    done
  then show ?thesis by blast
qed

lemma delete_each_healthy:
  assumes "script os = []"
  shows "fst (delete_each ids os) = Inr () \<and> script (snd (delete_each ids os)) = []
    \<and> indexName (snd (delete_each ids os)) = indexName os
    \<and> sleeps (snd (delete_each ids os)) = sleeps os
    \<and> (ids = [] \<longrightarrow> index (snd (delete_each ids os)) = index os)"
  using assms
proof (induction ids arbitrary: os)
  case Nil
  then show ?case by simp
next
  case (Cons i ids)
  let ?os1 = "snd (deleteDocument i os)"
  from Cons.prems have d: "fst (deleteDocument i os) = Inr True" "script ?os1 = []"
    "indexName ?os1 = indexName os" "sleeps ?os1 = sleeps os"
    by (simp_all add: deleteDocument_def client_delete_def Let_def)
  from Cons.IH [OF d(2)] d show ?case
    by (simp add: case_prod_beta split: sum.splits)
qed

lemma attempt_batch_healthy:
  assumes "script os = []"
  shows "fst (attempt_batch batch os) = Inr ()"
    and "script (snd (attempt_batch batch os)) = []"
    and "indexName (snd (attempt_batch batch os)) = indexName os"
    and "sleeps (snd (attempt_batch batch os)) = sleeps os"
    and "list_all (\<lambda>item. operation item \<noteq> ''delete'') batch \<Longrightarrow>
         index (snd (attempt_batch batch os)) = upsert_all (indexName os) (map document batch) (index os)"
proof -
  let ?ds = "map document (filter (\<lambda>item. operation item \<noteq> ''delete'') batch)"
  let ?ids = "map (\<lambda>item. oid (document item)) (filter (\<lambda>item. operation item = ''delete'') batch)"
  obtain r where r: "fst (bulkIndex ?ds os) = Inr r"
    using bulkIndex_healthy(1) [OF assms] by blast
  note b = bulkIndex_healthy(2-5) [OF assms, of ?ds]
  note d1 = delete_each_healthy [OF b(1), of ?ids]
  note d0 = delete_each_healthy [OF assms, of ?ids]
  show "fst (attempt_batch batch os) = Inr ()"
    using r d1 d0 by (simp add: attempt_batch_def Let_def case_prod_beta split: sum.splits)
  show "script (snd (attempt_batch batch os)) = []"
    using r d1 d0 by (simp add: attempt_batch_def Let_def case_prod_beta split: sum.splits)
  show "indexName (snd (attempt_batch batch os)) = indexName os"
    using r d1 d0 b by (simp add: attempt_batch_def Let_def case_prod_beta split: sum.splits)
  show "sleeps (snd (attempt_batch batch os)) = sleeps os"
    using r d1 d0 b by (simp add: attempt_batch_def Let_def case_prod_beta split: sum.splits)
  show "index (snd (attempt_batch batch os)) = upsert_all (indexName os) (map document batch) (index os)"
    if "list_all (\<lambda>item. operation item \<noteq> ''delete'') batch"
  proof -
    from that have f: "filter (\<lambda>item. operation item \<noteq> ''delete'') batch = batch"
      "filter (\<lambda>item. operation item = ''delete'') batch = []"
      by (simp_all add: list_all_iff filter_empty_conv)
    show ?thesis
      using r b f by (simp add: attempt_batch_def Let_def upsert_all_Nil case_prod_beta split: sum.splits)
  qed
qed

lemma processBatch_healthy:
  assumes "script os = []" and "\<not> processing p" and "queue p \<noteq> []"
  shows "fst (processBatch p os) =
           p\<lparr>queue := drop (nat (batchSize p)) (queue p),
             stats_processed := stats_processed p + length (take (nat (batchSize p)) (queue p))\<rparr>"
    and "script (snd (processBatch p os)) = []"
    and "indexName (snd (processBatch p os)) = indexName os"
    and "list_all (\<lambda>item. operation item \<noteq> ''delete'') (queue p) \<Longrightarrow>
         index (snd (processBatch p os)) =
           upsert_all (indexName os) (map document (take (nat (batchSize p)) (queue p))) (index os)"
proof -
  let ?batch = "take (nat (batchSize p)) (queue p)"
  note a = attempt_batch_healthy [OF assms(1), of ?batch]
  have r: "processBatchWithRetry ?batch 3 os = (Inr (), snd (attempt_batch ?batch os))"
    unfolding processBatchWithRetry_def
    by (subst retry_from.simps) (use a(1) in \<open>simp add: case_prod_beta split: sum.splits\<close>)
  show "fst (processBatch p os) =
           p\<lparr>queue := drop (nat (batchSize p)) (queue p),
             stats_processed := stats_processed p + length ?batch\<rparr>"
    using assms(2,3) by (simp add: processBatch_def r Let_def)
  show "script (snd (processBatch p os)) = []"
    using assms(2,3) a(2) by (simp add: processBatch_def r Let_def)
  show "indexName (snd (processBatch p os)) = indexName os"
    using assms(2,3) a(3) by (simp add: processBatch_def r Let_def)
  show "index (snd (processBatch p os)) = upsert_all (indexName os) (map document ?batch) (index os)"
    if "list_all (\<lambda>item. operation item \<noteq> ''delete'') (queue p)"
  proof -
    from that have "list_all (\<lambda>item. operation item \<noteq> ''delete'') ?batch"
      by (auto simp: list_all_iff dest: in_set_takeD)
    from a(5) [OF this] show ?thesis
      using assms(2,3) by (simp add: processBatch_def r Let_def)
  qed
qed

lemma flush_healthy:
  assumes "script os = []" and "\<not> processing p" and "1 \<le> batchSize p"
  shows "\<exists>p' os'. flush p os = Some (p', os') \<and> queue p' = [] \<and> \<not> processing p'
      \<and> batchSize p' = batchSize p
      \<and> stats_errors p' = stats_errors p
      \<and> stats_processed p' = stats_processed p + length (queue p)
      \<and> script os' = [] \<and> indexName os' = indexName os
      \<and> (list_all (\<lambda>item. operation item \<noteq> ''delete'') (queue p) \<longrightarrow>
           index os' = upsert_all (indexName os) (map document (queue p)) (index os))"
  using assms
proof (induction "length (queue p)" arbitrary: p os rule: less_induct)
  case less
  show ?case
  proof (cases "queue p = []")
    case True
    then show ?thesis
      using less.prems by (subst flush.simps) (simp add: upsert_all_Nil)
  next
    case False
    let ?n = "nat (batchSize p)"
    let ?p1 = "fst (processBatch p os)"
    let ?os1 = "snd (processBatch p os)"
    note pb = processBatch_healthy [OF less.prems(1) less.prems(2) False]
    have n: "0 < ?n" using less.prems(3) by simp
    have q1: "queue ?p1 = drop ?n (queue p)" "\<not> processing ?p1" "batchSize ?p1 = batchSize p"
      "stats_errors ?p1 = stats_errors p"
      "stats_processed ?p1 = stats_processed p + length (take ?n (queue p))"
      using pb(1) less.prems(2) by simp_all
    have shorter: "length (queue ?p1) < length (queue p)"
      using False n by (simp add: q1(1))
    from less.hyps [OF shorter pb(2) q1(2)] less.prems(3) q1(3)
    obtain p' os' where IH: "flush ?p1 ?os1 = Some (p', os')" "queue p' = []" "\<not> processing p'"
      "batchSize p' = batchSize ?p1" "stats_errors p' = stats_errors ?p1"
      "stats_processed p' = stats_processed ?p1 + length (queue ?p1)"
      "script os' = []" "indexName os' = indexName ?os1"
      "list_all (\<lambda>item. operation item \<noteq> ''delete'') (queue ?p1) \<longrightarrow>
           index os' = upsert_all (indexName ?os1) (map document (queue ?p1)) (index ?os1)"
      by auto
    have fl: "flush p os = flush ?p1 ?os1"
      using False by (subst flush.simps) (simp add: case_prod_beta)
    have idx: "index os' = upsert_all (indexName os) (map document (queue p)) (index os)"
      if all: "list_all (\<lambda>item. operation item \<noteq> ''delete'') (queue p)"
    proof -
      from all have "list_all (\<lambda>item. operation item \<noteq> ''delete'') (queue ?p1)"
        by (auto simp: q1(1) list_all_iff dest: in_set_dropD)
      with IH(9) have "index os' = upsert_all (indexName ?os1) (map document (drop ?n (queue p))) (index ?os1)"
        by (simp add: q1(1))
      also have "\<dots> = upsert_all (indexName os) (map document (drop ?n (queue p)))
          (upsert_all (indexName os) (map document (take ?n (queue p))) (index os))"
        by (simp add: pb(3) pb(4) [OF all])
      also have "\<dots> = upsert_all (indexName os) (map document (take ?n (queue p) @ drop ?n (queue p))) (index os)"
        by (simp only: map_append upsert_all_append)
      finally show ?thesis by simp
    qed
    show ?thesis
      using IH q1 pb(3) idx fl by (auto simp: min_def)
  qed
qed

text \<open>
  Claim C4. A pass over a non-empty queue during which the adapter throws on each of its
  three attempts (the errors not being the 404 that a delete takes for success) makes
  three calls, waits 2000 ms and then 4000 ms between them, leaves the index as it was, puts
  the batch back in front of the items that were not taken, so that the queue is what it was
  before the pass, adds the size of the batch to the error counter, and returns normally.
  \<open>flush\<close> goes on with the restored queue: once the adapter answers again it returns,
  the queue empty, with the error counter raised by the size of that one batch.
\<close>

theorem processBatch_retry_exhaustion:
  assumes "\<not> processing p" and "queue p \<noteq> []" and "1 \<le> batchSize p"
    and "script os = Throws e1 # Throws e2 # Throws e3 # rest"
    and "e1 \<noteq> ResponseError 404" and "e2 \<noteq> ResponseError 404" and "e3 \<noteq> ResponseError 404"
  shows "fst (processBatch p os) =
           p\<lparr>stats_errors := stats_errors p + length (take (nat (batchSize p)) (queue p))\<rparr>
    \<and> queue (fst (processBatch p os)) =
           take (nat (batchSize p)) (queue p) @ drop (nat (batchSize p)) (queue p)
    \<and> index (snd (processBatch p os)) = index os
    \<and> script (snd (processBatch p os)) = rest
    \<and> length (requests (snd (processBatch p os))) = length (requests os) + 3
    \<and> sleeps (snd (processBatch p os)) = sleeps os @ [2000, 4000]
    \<and> (rest = [] \<longrightarrow>
         (\<exists>p' os'. flush p os = Some (p', os') \<and> queue p' = []
            \<and> stats_errors p' = stats_errors p + length (take (nat (batchSize p)) (queue p))
            \<and> stats_processed p' = stats_processed p + length (queue p)))"
proof -
  let ?n = "nat (batchSize p)"
  let ?batch = "take ?n (queue p)"
  have ne: "?batch \<noteq> []" using assms(2,3) by simp
  from retry_three_throws [OF ne assms(4-7)]
  obtain r1 r2 r3 where r: "processBatchWithRetry ?batch 3 os =
     (Inl (Some e3), os\<lparr>requests := requests os @ [r1, r2, r3], script := rest,
                         sleeps := sleeps os @ [2000, 4000]\<rparr>)"
    by blast
  let ?p1 = "p\<lparr>stats_errors := stats_errors p + length ?batch\<rparr>"
  let ?os1 = "os\<lparr>requests := requests os @ [r1, r2, r3], script := rest,
                         sleeps := sleeps os @ [2000, 4000]\<rparr>"
  have pb1: "fst (processBatch p os) = ?p1"
    using assms(1,2) by (intro processor.equality) (simp_all add: processBatch_def r Let_def)
  have pb2: "snd (processBatch p os) = ?os1"
    using assms(1,2) by (simp add: processBatch_def r Let_def)
  have pb: "processBatch p os = (?p1, ?os1)"
    using pb1 pb2 by (simp add: prod_eq_iff)
  have fl: "\<exists>p' os'. flush p os = Some (p', os') \<and> queue p' = []
            \<and> stats_errors p' = stats_errors p + length ?batch
            \<and> stats_processed p' = stats_processed p + length (queue p)" if "rest = []"
  proof -
    have "flush p os = flush ?p1 ?os1"
      using assms(2) by (subst flush.simps) (simp add: pb)
    moreover from that have "script ?os1 = []" by simp
    from flush_healthy [OF this, of ?p1] assms(1,3)
    obtain p' os' where "flush ?p1 ?os1 = Some (p', os')" "queue p' = []"
      "stats_errors p' = stats_errors ?p1" "stats_processed p' = stats_processed ?p1 + length (queue ?p1)"
      by auto
    ultimately show ?thesis by auto
  qed
  show ?thesis
    using fl by (simp add: pb)
qed

theorem processBatch_retry_exhaustion_witness:
  "\<not> processing \<lparr>batchSize = 2, queue = [item_for ''a1'' ''upsert'', item_for ''a2'' ''delete'', item_for ''a3'' ''upsert''],
        processing = False, stats_processed = 0, stats_errors = 0\<rparr>
   \<and> (1::int) \<le> 2
   \<and> ConnectionError \<noteq> ResponseError 404 \<and> ResponseError 503 \<noteq> ResponseError 404
   \<and> fst (processBatch
        \<lparr>batchSize = 2, queue = [item_for ''a1'' ''upsert'', item_for ''a2'' ''delete'', item_for ''a3'' ''upsert''],
         processing = False, stats_processed = 0, stats_errors = 0\<rparr>
        \<lparr>indexName = ''ads'', index = [],
         script = [Throws ConnectionError, Throws (ResponseError 503), Throws ConnectionError],
         requests = [], sleeps = []\<rparr>)
      = \<lparr>batchSize = 2, queue = [item_for ''a1'' ''upsert'', item_for ''a2'' ''delete'', item_for ''a3'' ''upsert''],
         processing = False, stats_processed = 0, stats_errors = 2\<rparr>
   \<and> sleeps (snd (processBatch
        \<lparr>batchSize = 2, queue = [item_for ''a1'' ''upsert'', item_for ''a2'' ''delete'', item_for ''a3'' ''upsert''],
         processing = False, stats_processed = 0, stats_errors = 0\<rparr>
        \<lparr>indexName = ''ads'', index = [],
         script = [Throws ConnectionError, Throws (ResponseError 503), Throws ConnectionError],
         requests = [], sleeps = []\<rparr>)) = [2000, 4000]
   \<and> (\<exists>p' os'. flush
        \<lparr>batchSize = 2, queue = [item_for ''a1'' ''upsert'', item_for ''a2'' ''delete'', item_for ''a3'' ''upsert''],
         processing = False, stats_processed = 0, stats_errors = 0\<rparr>
        \<lparr>indexName = ''ads'', index = [],
         script = [Throws ConnectionError, Throws (ResponseError 503), Throws ConnectionError],
         requests = [], sleeps = []\<rparr> = Some (p', os')
        \<and> queue p' = [] \<and> stats_errors p' = 2 \<and> stats_processed p' = 3)"
  using processBatch_retry_exhaustion
    [where p = "\<lparr>batchSize = 2, queue = [item_for ''a1'' ''upsert'', item_for ''a2'' ''delete'', item_for ''a3'' ''upsert''],
         processing = False, stats_processed = 0, stats_errors = 0\<rparr>"
       and os = "\<lparr>indexName = ''ads'', index = [],
         script = [Throws ConnectionError, Throws (ResponseError 503), Throws ConnectionError],
         requests = [], sleeps = []\<rparr>"
       and ?e1.0 = ConnectionError and ?e2.0 = "ResponseError 503" and ?e3.0 = ConnectionError
       and rest = "[]"]
  by (simp add: numeral_2_eq_2 numeral_3_eq_3)

lemma bulk_bounded_append: "bulk_bounded b (xs @ ys) = (bulk_bounded b xs \<and> bulk_bounded b ys)"
  by (simp add: bulk_bounded_def)

lemma bulkIndex_requests:
  "requests (snd (bulkIndex ds os)) = requests os @ (if ds = [] then [] else [BulkReq (map (bulk_entry (indexName os)) ds)])"
  by (simp add: bulkIndex_def client_bulk_def Let_def case_prod_beta split: list.splits reply.splits)

lemma deleteDocument_requests:
  "requests (snd (deleteDocument i os)) = requests os @ [DeleteReq i]"
  by (simp add: deleteDocument_def client_delete_def Let_def split: list.splits reply.splits)

lemma delete_each_bounded:
  "bulk_bounded b (requests os) \<Longrightarrow> bulk_bounded b (requests (snd (delete_each ids os)))"
proof (induction ids arbitrary: os)
  case Nil
  then show ?case by simp
next
  case (Cons i ids)
  have "bulk_bounded b (requests (snd (deleteDocument i os)))"
    using Cons.prems by (simp add: deleteDocument_requests bulk_bounded_append) (simp add: bulk_bounded_def)
  from Cons.IH [OF this] Cons.prems this show ?case
    by (simp add: case_prod_beta split: sum.splits)
qed

lemma attempt_batch_bounded:
  assumes "bulk_bounded b (requests os)" and "batch \<noteq> [] \<longrightarrow> int (length batch) \<le> b"
  shows "bulk_bounded b (requests (snd (attempt_batch batch os)))"
proof -
  let ?ds = "map document (filter (\<lambda>item. operation item \<noteq> ''delete'') batch)"
  have len: "length ?ds \<le> length batch" by simp
  have "bulk_bounded b (requests (snd (bulkIndex ?ds os)))"
  proof (cases "?ds = []")
    case True
    then show ?thesis using assms(1) by (simp add: bulkIndex_requests)
  next
    case False
    then have "batch \<noteq> []" by auto
    with assms(2) len have "int (length ?ds) \<le> b" by linarith
    moreover from False have "1 \<le> length ?ds" by (simp add: Suc_le_eq)
    ultimately show ?thesis using assms(1) False
      by (simp add: bulkIndex_requests bulk_bounded_append) (simp add: bulk_bounded_def)
  qed
  from delete_each_bounded [OF this] delete_each_bounded [OF assms(1)] this show ?thesis
    by (simp add: attempt_batch_def Let_def case_prod_beta split: sum.splits)
qed

lemma retry_from_bounded:
  assumes "bulk_bounded b (requests os)" and "batch \<noteq> [] \<longrightarrow> int (length batch) \<le> b"
  shows "bulk_bounded b (requests (snd (retry_from attempt maxRetries lastError batch os)))"
  using assms
proof (induction attempt maxRetries lastError batch os rule: retry_from.induct)
  case (1 attempt maxRetries lastError batch os)
  note ab = attempt_batch_bounded [OF "1.prems"]
  show ?case
  proof (cases "attempt \<le> maxRetries")
    case False
    then show ?thesis using "1.prems" by (subst retry_from.simps) simp
  next
    case True
    obtain r os' where a: "attempt_batch batch os = (r, os')" by (cases "attempt_batch batch os")
    with ab have b': "bulk_bounded b (requests os')" by simp
    show ?thesis
    proof (cases r)
      case (Inr u)
      with a True b' show ?thesis by (subst retry_from.simps) simp
    next
      case (Inl e)
      let ?os2 = "if attempt < maxRetries then os'\<lparr>sleeps := sleeps os' @ [2 ^ attempt * 1000]\<rparr> else os'"
      have "bulk_bounded b (requests ?os2)" using b' by simp
      from "1.IH" [OF True a [symmetric] Inl this "1.prems"(2)] a Inl True show ?thesis
        by (subst retry_from.simps) simp
    qed
  qed
qed

lemma processBatch_bounded:
  assumes "bulk_bounded (batchSize p) (requests os)"
  shows "bulk_bounded (batchSize p) (requests (snd (processBatch p os)))"
proof -
  let ?batch = "take (nat (batchSize p)) (queue p)"
  have "?batch \<noteq> [] \<longrightarrow> int (length ?batch) \<le> batchSize p" by auto
  from retry_from_bounded [OF assms this, of 1 3 None] assms show ?thesis
    by (simp add: processBatch_def processBatchWithRetry_def Let_def case_prod_beta split: sum.splits)
qed

lemma processBatch_keeps:
  "batchSize (fst (processBatch p os)) = batchSize p"
  "\<not> processing p \<Longrightarrow> \<not> processing (fst (processBatch p os))"
  by (simp_all add: processBatch_def Let_def case_prod_beta split: sum.splits)

lemma processBatch_inv:
  assumes "bulk_bounded b (requests os)" and "batchSize p = b" and "\<not> processing p"
  shows "bulk_bounded b (requests (snd (processBatch p os)))
     \<and> batchSize (fst (processBatch p os)) = b \<and> \<not> processing (fst (processBatch p os))"
  using processBatch_bounded [of p os] processBatch_keeps [of p os] assms by simp

lemma addDocument_inv:
  assumes "bulk_bounded b (requests os)" and "batchSize p = b" and "\<not> processing p"
  shows "bulk_bounded b (requests (snd (addDocument d opn p os)))
     \<and> batchSize (fst (addDocument d opn p os)) = b \<and> \<not> processing (fst (addDocument d opn p os))"
  using processBatch_inv [of b os "p\<lparr>queue := queue p @ [\<lparr>document = d, operation = opn\<rparr>]\<rparr>"] assms
  by (simp add: addDocument_def Let_def)

lemma addDocuments_inv:
  assumes "bulk_bounded b (requests os)" and "batchSize p = b" and "\<not> processing p"
  shows "bulk_bounded b (requests (snd (addDocuments ds opn p os)))
     \<and> batchSize (fst (addDocuments ds opn p os)) = b \<and> \<not> processing (fst (addDocuments ds opn p os))"
  using processBatch_inv [of b os "p\<lparr>queue := queue p @ map (\<lambda>d. \<lparr>document = d, operation = opn\<rparr>) ds\<rparr>"] assms
  by (simp add: addDocuments_def Let_def)

lemma run_bounded:
  "bulk_bounded b (requests (snd s)) \<Longrightarrow> batchSize (fst s) = b \<Longrightarrow> \<not> processing (fst s) \<Longrightarrow>
     bulk_bounded b (requests (snd (run cs s)))
     \<and> batchSize (fst (run cs s)) = b \<and> \<not> processing (fst (run cs s))"
proof (induction cs arbitrary: s)
  case Nil
  then show ?case by simp
next
  case (Cons c cs)
  show ?case
  proof (cases c)
    case (Add d opn)
    from addDocument_inv [OF Cons.prems, of d opn] Cons.IH [of "addDocument d opn (fst s) (snd s)"] Add
    show ?thesis by simp
  next
    case (AddMany ds opn)
    from addDocuments_inv [OF Cons.prems, of ds opn] Cons.IH [of "addDocuments ds opn (fst s) (snd s)"] AddMany
    show ?thesis by simp
  next
    case Pass
    from processBatch_inv [OF Cons.prems] Cons.IH [of "processBatch (fst s) (snd s)"] Pass
    show ?thesis by simp
  qed
qed

text \<open>
  Claim C6. Along every sequence of \<open>addDocument\<close>, \<open>addDocuments\<close> and passes, every bulk
  request sent to the adapter carries at least one and at most \<open>batchSize\<close> documents. A
  single pass over a non-empty queue, for a batch size of at least 1, takes
  \<open>k = min (length queue) batchSize\<close> items with \<open>1 \<le> k \<le> batchSize\<close> (the counters of
  \<open>stats\<close> grow by \<open>k\<close>); the items after the first \<open>k\<close> stay queued, behind nothing when
  the pass succeeds and behind the batch put back when it fails. A pass over an empty
  queue changes nothing and calls nothing.
\<close>

theorem batch_bound:
  "(bulk_bounded (batchSize p) (requests os) \<and> \<not> processing p \<longrightarrow>
      bulk_bounded (batchSize p) (requests (snd (run cs (p, os))))
      \<and> batchSize (fst (run cs (p, os))) = batchSize p \<and> \<not> processing (fst (run cs (p, os))))
   \<and> (\<not> processing p \<and> queue p \<noteq> [] \<and> 1 \<le> batchSize p \<longrightarrow>
        (let p' = fst (processBatch p os);
             k = (stats_processed p' + stats_errors p') - (stats_processed p + stats_errors p)
         in k = length (take (nat (batchSize p)) (queue p)) \<and> 1 \<le> k \<and> int k \<le> batchSize p
            \<and> (stats_errors p' = stats_errors p \<and> queue p' = drop k (queue p)
               \<or> stats_processed p' = stats_processed p \<and> queue p' = queue p)))
   \<and> (queue p = [] \<longrightarrow> processBatch p os = (p, os))"
proof (intro conjI impI)
  assume "bulk_bounded (batchSize p) (requests os) \<and> \<not> processing p"
  with run_bounded [of "batchSize p" "(p, os)" cs]
  show "bulk_bounded (batchSize p) (requests (snd (run cs (p, os))))"
    "batchSize (fst (run cs (p, os))) = batchSize p" "\<not> processing (fst (run cs (p, os)))"
    by simp_all
next
  assume a: "\<not> processing p \<and> queue p \<noteq> [] \<and> 1 \<le> batchSize p"
  let ?batch = "take (nat (batchSize p)) (queue p)"
  obtain r os' where r: "processBatchWithRetry ?batch 3 os = (r, os')"
    by (cases "processBatchWithRetry ?batch 3 os")
  have k: "1 \<le> length ?batch" "int (length ?batch) \<le> batchSize p"
    using a by (auto simp: Suc_le_eq)
  show "let p' = fst (processBatch p os);
             k = (stats_processed p' + stats_errors p') - (stats_processed p + stats_errors p)
         in k = length (take (nat (batchSize p)) (queue p)) \<and> 1 \<le> k \<and> int k \<le> batchSize p
            \<and> (stats_errors p' = stats_errors p \<and> queue p' = drop k (queue p)
               \<or> stats_processed p' = stats_processed p \<and> queue p' = queue p)"
    using a k r by (cases r) (auto simp: processBatch_def Let_def min_def)
next
  assume "queue p = []"
  then show "processBatch p os = (p, os)" by (simp add: processBatch_def)
qed

theorem batch_bound_witness:
  "bulk_bounded (batchSize \<lparr>batchSize = 2, queue = [item_for ''a1'' ''upsert'', item_for ''a2'' ''delete'', item_for ''a3'' ''upsert''],
        processing = False, stats_processed = 0, stats_errors = 0\<rparr>)
     (requests \<lparr>indexName = ''ads'', index = [], script = [], requests = [], sleeps = []\<rparr>)
   \<and> \<not> processing \<lparr>batchSize = 2, queue = [item_for ''a1'' ''upsert'', item_for ''a2'' ''delete'', item_for ''a3'' ''upsert''],
        processing = False, stats_processed = 0, stats_errors = 0\<rparr>
   \<and> queue \<lparr>batchSize = 2, queue = [item_for ''a1'' ''upsert'', item_for ''a2'' ''delete'', item_for ''a3'' ''upsert''],
        processing = False, stats_processed = 0, stats_errors = 0\<rparr> \<noteq> []
   \<and> 1 \<le> batchSize \<lparr>batchSize = 2, queue = [item_for ''a1'' ''upsert'', item_for ''a2'' ''delete'', item_for ''a3'' ''upsert''],
        processing = False, stats_processed = 0, stats_errors = 0\<rparr>
   \<and> bulk_bounded 2 (requests (snd (run [Add \<lparr>oid = ''a4'', props = []\<rparr> ''upsert'', Pass]
        (\<lparr>batchSize = 2, queue = [item_for ''a1'' ''upsert'', item_for ''a2'' ''delete'', item_for ''a3'' ''upsert''],
          processing = False, stats_processed = 0, stats_errors = 0\<rparr>,
         \<lparr>indexName = ''ads'', index = [], script = [], requests = [], sleeps = []\<rparr>))))
   \<and> (let p' = fst (processBatch
           \<lparr>batchSize = 2, queue = [item_for ''a1'' ''upsert'', item_for ''a2'' ''delete'', item_for ''a3'' ''upsert''],
            processing = False, stats_processed = 0, stats_errors = 0\<rparr>
           \<lparr>indexName = ''ads'', index = [], script = [], requests = [], sleeps = []\<rparr>);
            k = (stats_processed p' + stats_errors p') - (0 + 0)
        in k = 2 \<and> (stats_errors p' = 0 \<and> queue p' = [item_for ''a3'' ''upsert'']
                     \<or> stats_processed p' = 0
                        \<and> queue p' = [item_for ''a1'' ''upsert'', item_for ''a2'' ''delete'', item_for ''a3'' ''upsert'']))"
  using batch_bound
    [where p = "\<lparr>batchSize = 2, queue = [item_for ''a1'' ''upsert'', item_for ''a2'' ''delete'', item_for ''a3'' ''upsert''],
         processing = False, stats_processed = 0, stats_errors = 0\<rparr>"
       and os = "\<lparr>indexName = ''ads'', index = [], script = [], requests = [], sleeps = []\<rparr>"
       and cs = "[Add \<lparr>oid = ''a4'', props = []\<rparr> ''upsert'', Pass]"]
  by (auto simp add: bulk_bounded_def Let_def numeral_2_eq_2)








section \<open>Properties of the reconciliation engine\<close>

text \<open>
  Claim C5. When the service is running, the cluster answers the statistics call and the
  index holds more documents than the collection, \<open>checkAndSync\<close> returns \<open>inSync\<close> false,
  \<open>synced\<close> 0 and \<open>orphanedDocs\<close> equal to the excess; the only call made to the cluster is
  the statistics call, so no document is written or deleted and the index is unchanged.
\<close>

theorem checkAndSync_orphans_no_repair:
  assumes "isRunning rs" and "answers os" and "length (index os) > countDocuments coll"
  shows "checkAndSync coll rs os =
     (Some (no_result\<lparr>inSync := Some False, mongoCount := Some (countDocuments coll),
        opensearchCount := Some (length (index os)),
        difference := Some (int (countDocuments coll) - int (length (index os))),
        synced := Some 0,
        orphanedDocs := Some (length (index os) - countDocuments coll)\<rparr>),
      rs\<lparr>totalChecks := totalChecks rs + 1\<rparr>,
      os\<lparr>requests := requests os @ [StatsReq], script := tl (script os)\<rparr>)"
  using assms
  by (auto simp: checkAndSync_def getIndexStats_def client_stats_def answers_def Let_def
      split: list.splits reply.splits)

theorem checkAndSync_orphans_no_repair_witness:
  "isRunning \<lparr>isRunning = True, totalChecks = 0, totalSyncs = 0, documentsSynced = 0, recon_errors = 0\<rparr>
   \<and> answers \<lparr>indexName = ''ads'', index = [(''a1'', []), (''b2'', [])], script = [], requests = [], sleeps = []\<rparr>
   \<and> length (index \<lparr>indexName = ''ads'', index = [(''a1'', []), (''b2'', [])], script = [], requests = [], sleeps = []\<rparr>)
        > countDocuments [\<lparr>oid = ''a1'', props = []\<rparr>]
   \<and> checkAndSync [\<lparr>oid = ''a1'', props = []\<rparr>]
        \<lparr>isRunning = True, totalChecks = 0, totalSyncs = 0, documentsSynced = 0, recon_errors = 0\<rparr>
        \<lparr>indexName = ''ads'', index = [(''a1'', []), (''b2'', [])], script = [], requests = [], sleeps = []\<rparr>
      = (Some \<lparr>r_success = True, inSync = Some False, mongoCount = Some 1, opensearchCount = Some 2,
           difference = Some (- 1), synced = Some 0, missingCount = None, orphanedDocs = Some 1,
           r_error = None\<rparr>,
         \<lparr>isRunning = True, totalChecks = 1, totalSyncs = 0, documentsSynced = 0, recon_errors = 0\<rparr>,
         \<lparr>indexName = ''ads'', index = [(''a1'', []), (''b2'', [])], script = [], requests = [StatsReq],
          sleeps = []\<rparr>)"
  using checkAndSync_orphans_no_repair
    [where rs = "\<lparr>isRunning = True, totalChecks = 0, totalSyncs = 0, documentsSynced = 0, recon_errors = 0\<rparr>"
       and os = "\<lparr>indexName = ''ads'', index = [(''a1'', []), (''b2'', [])], script = [], requests = [], sleeps = []\<rparr>"
       and coll = "[\<lparr>oid = ''a1'', props = []\<rparr>]"]
  by (simp add: answers_def countDocuments_def no_result_def)





















end
